theory Spec2Isabelle
  imports Complex_Main
begin

section \<open>Values, tasks and options\<close>

text \<open>
  The runtime values a task can produce or throw. \<open>ErrorObj m\<close> is an instance of
  \<open>Error\<close> whose \<open>message\<close> is \<open>m\<close>; the other constructors are values that are
  not instances of \<open>Error\<close>.
\<close>

datatype val = Undefined | Num int | Str string | ErrorObj string

fun isError :: "val \<Rightarrow> bool" where
  "isError (ErrorObj m) = True"
| "isError Undefined = False"
| "isError (Num n) = False"
| "isError (Str s) = False"

definition digit :: "nat \<Rightarrow> char" where
  "digit d = ''0123456789'' ! d"

function string_of_nat :: "nat \<Rightarrow> string" where
  "string_of_nat n =
     (if n < 10 then [digit n] else string_of_nat (n div 10) @ [digit (n mod 10)])"
  by pat_completeness auto
termination
  by (relation "measure (\<lambda>n. n)") auto

declare string_of_nat.simps [simp del]

text \<open>\<open>String(v)\<close>, the coercion applied to a thrown value that is not an \<open>Error\<close>.\<close>

fun toString :: "val \<Rightarrow> string" where
  "toString Undefined = ''undefined''"
| "toString (Num n) = (if n < 0 then ''-'' @ string_of_nat (nat (- n)) else string_of_nat (nat n))"
| "toString (Str s) = s"
| "toString (ErrorObj m) = (if m = [] then ''Error'' else ''Error: '' @ m)"

text \<open>\<open>error instanceof Error ? error : new Error(String(error))\<close>\<close>

definition toError :: "val \<Rightarrow> val" where
  "toError e = (if isError e then e else ErrorObj (toString e))"

text \<open>
  A task is a thunk. When invoked it throws synchronously, or returns a promise that
  later resolves with a value or rejects with an error. Every returned promise settles:
  a task eventually produces either a value or an error. An element of the task array
  may also be \<open>undefined\<close>: that is \<open>None\<close>.
\<close>

datatype task = Resolves val | Rejects val | Throws val

type_synonym tasks = "task option list"

text \<open>
  The progress callback is observed through the sequence of its calls, which the run
  records in its trace; it returns normally.
\<close>

datatype callback = Recorder

record options =
  concurrency :: "int option"
  failFast :: "bool option"
  onProgress :: "callback option"

text \<open>
  The destructuring defaults of line 17. The field \<open>concurrency\<close> holds an integer, as
  the spec declares it. The interface types it as a number: the values of that type that
  are not integers are the subject of the section on a concurrency that is not an
  integer, below.
\<close>

definition concurrency_of :: "options \<Rightarrow> int" where
  "concurrency_of opts = (case concurrency opts of None \<Rightarrow> 5 | Some c \<Rightarrow> c)"

definition failFast_of :: "options \<Rightarrow> bool" where
  "failFast_of opts = (case failFast opts of None \<Rightarrow> False | Some b \<Rightarrow> b)"

text \<open>The two implementations: \<open>src/index.ts\<close> and \<open>src/index.js\<close>.\<close>

datatype impl = TS | JS

section \<open>The run state\<close>

text \<open>
  The observable events of a run, in the order they happen:
  \<open>Admit i\<close> is \<open>inProgress.add(i)\<close> in the fill loop,
  \<open>Dispatch i\<close> is \<open>processTask(i)\<close> passing its guard (\<open>processing.add(i)\<close>, after
  which the task is invoked),
  \<open>Abort i\<close> is \<open>failed = true\<close> in the catch block of task \<open>i\<close>,
  \<open>Settled i\<close> is the finally block of task \<open>i\<close>,
  \<open>Progress c t\<close> is the call \<open>onProgress(c, t)\<close>.
\<close>

datatype event = Admit nat | Dispatch nat | Abort nat | Settled nat | Progress nat nat

text \<open>
  The local variables of \<open>asyncBatch\<close>, and the trace of the events so far. \<open>results\<close>
  is created by \<open>new Array(total)\<close>: \<open>None\<close> is a hole. The two \<open>Set\<close>s are lists in
  insertion order without duplicates. The constant \<open>total\<close> is \<open>length T\<close>.
\<close>

record state =
  results :: "val option list"
  completed :: nat
  failed :: bool
  firstError :: "val option"
  queue :: "nat list"
  inProgress :: "nat list"
  processing :: "nat list"
  trace :: "event list"

definition set_add :: "nat \<Rightarrow> nat list \<Rightarrow> nat list" where
  "set_add x xs = (if x \<in> set xs then xs else xs @ [x])"

definition set_delete :: "nat \<Rightarrow> nat list \<Rightarrow> nat list" where
  "set_delete x xs = removeAll x xs"

text \<open>\<open>xs[i] = v\<close>: an assignment past the end extends the array with holes.\<close>

definition array_set :: "'a option list \<Rightarrow> nat \<Rightarrow> 'a \<Rightarrow> 'a option list" where
  "array_set xs i v =
     (if i < length xs then xs[i := Some v]
      else xs @ replicate (i - length xs) None @ [Some v])"

text \<open>\<open>tasks[i]\<close>: reading past the end gives \<open>undefined\<close>.\<close>

definition lookup :: "tasks \<Rightarrow> nat \<Rightarrow> task option" where
  "lookup T i = (if i < length T then T ! i else None)"

definition init :: "tasks \<Rightarrow> state" where
  "init T =
     \<lparr> results = replicate (length T) None, completed = 0, failed = False,
       firstError = None, queue = [0..<length T], inProgress = [], processing = [],
       trace = [] \<rparr>"

section \<open>processTask\<close>

text \<open>
  \<open>onProgress?.(completed, total)\<close> in the TypeScript source,
  \<open>if (onProgress) onProgress(completed, total)\<close> in the JavaScript source.
\<close>

definition call_onProgress :: "impl \<Rightarrow> options \<Rightarrow> nat \<Rightarrow> nat \<Rightarrow> state \<Rightarrow> state" where
  "call_onProgress v opts c t s =
     (case v of
        TS \<Rightarrow> (case onProgress opts of
                 None \<Rightarrow> s
               | Some cb \<Rightarrow> s\<lparr>trace := trace s @ [Progress c t]\<rparr>)
      | JS \<Rightarrow> (if onProgress opts = None then s
               else s\<lparr>trace := trace s @ [Progress c t]\<rparr>))"

definition finally_block :: "impl \<Rightarrow> options \<Rightarrow> nat \<Rightarrow> nat \<Rightarrow> state \<Rightarrow> state" where
  "finally_block v opts n i s =
     (let s1 = s\<lparr>inProgress := set_delete i (inProgress s), trace := trace s @ [Settled i]\<rparr>
      in if failed s1 then s1
         else call_onProgress v opts (Suc (completed s1)) n
                (s1\<lparr>completed := Suc (completed s1)\<rparr>))"

definition catch_block :: "options \<Rightarrow> nat \<Rightarrow> val \<Rightarrow> state \<Rightarrow> state" where
  "catch_block opts i e s =
     (if failFast_of opts
      then s\<lparr>failed := True, firstError := Some (toError e), trace := trace s @ [Abort i]\<rparr>
      else s\<lparr>results := array_set (results s) i (toError e)\<rparr>)"

text \<open>
  The synchronous part of \<open>processTask(i)\<close>, up to \<open>await task()\<close>. The flag returned
  says whether the call is suspended at the \<open>await\<close>; otherwise it has run to its end
  (the early return of line 31, or a synchronous throw handled by catch and finally).
\<close>

definition processTask :: "impl \<Rightarrow> tasks \<Rightarrow> options \<Rightarrow> nat \<Rightarrow> state \<Rightarrow> state \<times> bool" where
  "processTask v T opts i s =
     (if failed s \<or> i \<in> set (processing s) then (s, False)
      else
        let s1 = s\<lparr>processing := set_add i (processing s), trace := trace s @ [Dispatch i]\<rparr>
        in case lookup T i of
             None \<Rightarrow>
               (finally_block v opts (length T) i
                  (catch_block opts i
                     (ErrorObj (''Task at index '' @ string_of_nat i @ '' is undefined'')) s1),
                False)
           | Some (Throws e) \<Rightarrow>
               (finally_block v opts (length T) i (catch_block opts i e s1), False)
           | Some (Resolves r) \<Rightarrow> (s1, True)
           | Some (Rejects e) \<Rightarrow> (s1, True))"

text \<open>
  The rest of \<open>processTask(i)\<close>, run when the promise of task \<open>i\<close> settles. Only a call
  that is suspended resumes, so the last two cases are never reached.
\<close>

definition resume :: "impl \<Rightarrow> tasks \<Rightarrow> options \<Rightarrow> nat \<Rightarrow> state \<Rightarrow> state" where
  "resume v T opts i s =
     (case lookup T i of
        Some (Resolves r) \<Rightarrow>
          finally_block v opts (length T) i
            (if failed s then s else s\<lparr>results := array_set (results s) i r\<rparr>)
      | Some (Rejects e) \<Rightarrow> finally_block v opts (length T) i (catch_block opts i e s)
      | Some (Throws e) \<Rightarrow> s
      | None \<Rightarrow> s)"

section \<open>A wave\<close>

text \<open>
  \<open>Array.from(inProgress).map(processTask)\<close>: the calls run one after the other, each up
  to its \<open>await\<close>. The result lists the suspended calls, in dispatch order.
\<close>

fun dispatch_all :: "impl \<Rightarrow> tasks \<Rightarrow> options \<Rightarrow> nat list \<Rightarrow> state \<Rightarrow> state \<times> nat list" where
  "dispatch_all v T opts [] s = (s, [])"
| "dispatch_all v T opts (i # js) s =
     (case processTask v T opts i s of
        (s1, suspended) \<Rightarrow>
          (case dispatch_all v T opts js s1 of
             (s2, ps) \<Rightarrow> (s2, if suspended then i # ps else ps)))"

text \<open>
  \<open>await Promise.all(...)\<close>: the suspended calls resume one at a time, in the order their
  promises settle. That order belongs to the environment: \<open>pick ps\<close> chooses, among the
  calls \<open>ps\<close> still suspended, the position of the one that settles next.
\<close>

function settle_all ::
  "impl \<Rightarrow> tasks \<Rightarrow> options \<Rightarrow> (nat list \<Rightarrow> nat) \<Rightarrow> nat list \<Rightarrow> state \<Rightarrow> state" where
  "settle_all v T opts pick ps s =
     (if ps = [] then s
      else let i = ps ! (pick ps mod length ps)
           in settle_all v T opts pick (remove1 i ps) (resume v T opts i s))"
  by pat_completeness auto
termination
  by (relation "measure (\<lambda>(v, T, opts, pick, ps, s). length ps)")
     (auto simp: length_remove1 intro!: diff_less)

declare settle_all.simps [simp del]

section \<open>asyncBatch\<close>

text \<open>The inner loop of lines 60--63.\<close>

function fill :: "int \<Rightarrow> state \<Rightarrow> state" where
  "fill c s =
     (if int (length (inProgress s)) < c \<and> queue s \<noteq> [] \<and> \<not> failed s
      then fill c (s\<lparr>queue := tl (queue s),
                      inProgress := set_add (hd (queue s)) (inProgress s),
                      trace := trace s @ [Admit (hd (queue s))]\<rparr>)
      else s)"
  by pat_completeness auto
termination
  by (relation "measure (\<lambda>(c, s). length (queue s))") auto

declare fill.simps [simp del]

text \<open>
  The body of the outer loop: \<open>Inl (e, s)\<close> is \<open>throw firstError\<close> with \<open>firstError = e\<close>,
  \<open>Inr s\<close> goes round the loop again.
\<close>

definition iteration ::
  "impl \<Rightarrow> tasks \<Rightarrow> options \<Rightarrow> (nat list \<Rightarrow> nat) \<Rightarrow> state \<Rightarrow> (val \<times> state) + state" where
  "iteration v T opts pick s =
     (let s1 = fill (concurrency_of opts) s
      in if inProgress s1 = [] then Inr s1
         else (case dispatch_all v T opts (inProgress s1) s1 of
                 (s2, ps) \<Rightarrow>
                   let s3 = settle_all v T opts pick ps s2
                   in (case firstError s3 of
                         None \<Rightarrow> Inr s3
                       | Some e \<Rightarrow> if failed s3 then Inl (e, s3) else Inr s3)))"

text \<open>
  How a call ends: it returns the result array, throws \<open>firstError\<close> (line 70), or
  throws the fresh \<open>new Error(...)\<close> of line 78 with the given message.
\<close>

datatype outcome = Returned "val option list" | TaskError val | AllFailed string

text \<open>\<open>results.every((result) => result instanceof Error)\<close>: \<open>every\<close> skips holes.\<close>

definition allFailed :: "val option list \<Rightarrow> bool" where
  "allFailed rs = list_all (\<lambda>r. case r of None \<Rightarrow> True | Some x \<Rightarrow> isError x) rs"

text \<open>
  \<open>e.message\<close>, as \<open>join\<close> renders it: a hole gives the empty string. It is read only
  when \<open>allFailed\<close> holds, so every element that is present is an \<open>Error\<close>.
\<close>

fun message :: "val option \<Rightarrow> string" where
  "message (Some (ErrorObj m)) = m"
| "message r = []"

fun join :: "string \<Rightarrow> string list \<Rightarrow> string" where
  "join sep [] = []"
| "join sep [x] = x"
| "join sep (x # y # ys) = x @ sep @ join sep (y # ys)"

definition finish :: "state \<Rightarrow> outcome" where
  "finish s =
     (if allFailed (results s)
      then AllFailed (''All tasks failed to execute: '' @ join '', '' (map message (results s)))
      else Returned (results s))"

text \<open>
  The outer loop of lines 58--73 and what follows it. \<open>None\<close> is a call that never
  settles.
\<close>

partial_function (option) run_loop ::
  "impl \<Rightarrow> tasks \<Rightarrow> options \<Rightarrow> (nat list \<Rightarrow> nat) \<Rightarrow> state \<Rightarrow> (outcome \<times> state) option" where
  "run_loop v T opts pick s =
     (if queue s \<noteq> [] \<and> \<not> failed s
      then (case iteration v T opts pick s of
              Inl (e, s') \<Rightarrow> Some (TaskError e, s')
            | Inr s' \<Rightarrow> run_loop v T opts pick s')
      else Some (finish s, s))"

declare run_loop.simps [code]

definition asyncBatch ::
  "impl \<Rightarrow> tasks \<Rightarrow> options \<Rightarrow> (nat list \<Rightarrow> nat) \<Rightarrow> (outcome \<times> state) option" where
  "asyncBatch v T opts pick = run_loop v T opts pick (init T)"

text \<open>
  Two settlement orders used in the examples: the suspended call dispatched first
  settles first, or the one dispatched last settles first.
\<close>

definition fifo :: "nat list \<Rightarrow> nat" where
  "fifo ps = 0"

definition lifo :: "nat list \<Rightarrow> nat" where
  "lifo ps = length ps - 1"

section \<open>A concurrency that is not an integer\<close>

text \<open>
  The interface types \<open>concurrency\<close> as a JavaScript number: a finite value, given here
  by the real number it denotes, one of the two infinities, or \<open>NaN\<close>. The code reads it
  in one place, the comparison \<open>inProgress.size < concurrency\<close> of line 60: that is
  \<open>size_less\<close>, on every value of the type number. A comparison with \<open>NaN\<close> is false.
\<close>

datatype number = Finite real | PosInfinity | NegInfinity | NaN

fun size_less :: "nat \<Rightarrow> number \<Rightarrow> bool" where
  "size_less n (Finite c) = (real n < c)"
| "size_less n PosInfinity = True"
| "size_less n NegInfinity = False"
| "size_less n NaN = False"

text \<open>\<open>concurrency < 1\<close> and \<open>concurrency <= 0\<close>, on numbers.\<close>

fun below_one :: "number \<Rightarrow> bool" where
  "below_one (Finite c) = (c < 1)"
| "below_one PosInfinity = False"
| "below_one NegInfinity = True"
| "below_one NaN = False"

fun at_most_zero :: "number \<Rightarrow> bool" where
  "at_most_zero (Finite c) = (c \<le> 0)"
| "at_most_zero PosInfinity = False"
| "at_most_zero NegInfinity = True"
| "at_most_zero NaN = False"

text \<open>
  The inner loop, the body of the outer loop, the outer loop and the call, when
  \<open>options.concurrency\<close> is the number \<open>c\<close>; the other options are read from \<open>opts\<close>,
  whose field \<open>concurrency\<close> is not read.
  Except for the comparison they are \<open>fill\<close>, \<open>iteration\<close>, \<open>run_loop\<close> and \<open>asyncBatch\<close>.
\<close>

function fill_number :: "number \<Rightarrow> state \<Rightarrow> state" where
  "fill_number c s =
     (if size_less (length (inProgress s)) c \<and> queue s \<noteq> [] \<and> \<not> failed s
      then fill_number c (s\<lparr>queue := tl (queue s),
                             inProgress := set_add (hd (queue s)) (inProgress s),
                             trace := trace s @ [Admit (hd (queue s))]\<rparr>)
      else s)"
  by pat_completeness auto
termination
  by (relation "measure (\<lambda>(c, s). length (queue s))") auto

declare fill_number.simps [simp del]

definition iteration_number ::
  "impl \<Rightarrow> tasks \<Rightarrow> number \<Rightarrow> options \<Rightarrow> (nat list \<Rightarrow> nat) \<Rightarrow> state \<Rightarrow> (val \<times> state) + state" where
  "iteration_number v T c opts pick s =
     (let s1 = fill_number c s
      in if inProgress s1 = [] then Inr s1
         else (case dispatch_all v T opts (inProgress s1) s1 of
                 (s2, ps) \<Rightarrow>
                   let s3 = settle_all v T opts pick ps s2
                   in (case firstError s3 of
                         None \<Rightarrow> Inr s3
                       | Some e \<Rightarrow> if failed s3 then Inl (e, s3) else Inr s3)))"

partial_function (option) run_loop_number ::
  "impl \<Rightarrow> tasks \<Rightarrow> number \<Rightarrow> options \<Rightarrow> (nat list \<Rightarrow> nat) \<Rightarrow> state
     \<Rightarrow> (outcome \<times> state) option" where
  "run_loop_number v T c opts pick s =
     (if queue s \<noteq> [] \<and> \<not> failed s
      then (case iteration_number v T c opts pick s of
              Inl (e, s') \<Rightarrow> Some (TaskError e, s')
            | Inr s' \<Rightarrow> run_loop_number v T c opts pick s')
      else Some (finish s, s))"

declare run_loop_number.simps [code]

definition asyncBatch_number ::
  "impl \<Rightarrow> tasks \<Rightarrow> number \<Rightarrow> options \<Rightarrow> (nat list \<Rightarrow> nat) \<Rightarrow> (outcome \<times> state) option" where
  "asyncBatch_number v T c opts pick = run_loop_number v T c opts pick (init T)"

section \<open>Notions used in the statements and proofs\<close>

text \<open>
  \<open>outv T i\<close> is the value that task \<open>i\<close> leaves in \<open>results[i]\<close> when its outcome is
  recorded: the resolved value, or the error (coerced to an \<open>Error\<close>) it failed with.
  A task suspends when invoking it returns a promise.
\<close>

definition outv :: "tasks \<Rightarrow> nat \<Rightarrow> val" where
  "outv T i =
     (case lookup T i of
        Some (Resolves r) \<Rightarrow> r
      | Some (Rejects e) \<Rightarrow> toError e
      | Some (Throws e) \<Rightarrow> toError e
      | None \<Rightarrow> ErrorObj (''Task at index '' @ string_of_nat i @ '' is undefined''))"

definition suspends :: "tasks \<Rightarrow> nat \<Rightarrow> bool" where
  "suspends T i =
     (case lookup T i of
        Some (Resolves r) \<Rightarrow> True
      | Some (Rejects e) \<Rightarrow> True
      | Some (Throws e) \<Rightarrow> False
      | None \<Rightarrow> False)"

text \<open>
  \<open>failure i t\<close> is the error that the catch block handles when task \<open>i\<close> is \<open>t\<close>:
  \<open>None\<close> when the task resolves.
\<close>

fun failure :: "nat \<Rightarrow> task option \<Rightarrow> val option" where
  "failure i None = Some (ErrorObj (''Task at index '' @ string_of_nat i @ '' is undefined''))"
| "failure i (Some (Throws e)) = Some (toError e)"
| "failure i (Some (Rejects e)) = Some (toError e)"
| "failure i (Some (Resolves r)) = None"

text \<open>
  \<open>progress_event\<close> is the call of the callback, when one is supplied. \<open>complete\<close> is
  the effect of recording the outcome of task \<open>i\<close> and running its finally block in a
  run that has not aborted; \<open>mark\<close> is the effect of \<open>processTask(i)\<close> passing its guard.
\<close>

definition progress_event :: "options \<Rightarrow> nat \<Rightarrow> nat \<Rightarrow> event list" where
  "progress_event opts c n = (if onProgress opts = None then [] else [Progress c n])"

definition complete :: "tasks \<Rightarrow> options \<Rightarrow> nat \<Rightarrow> state \<Rightarrow> state" where
  "complete T opts i s =
     s\<lparr>results := array_set (results s) i (outv T i),
       inProgress := set_delete i (inProgress s),
       completed := Suc (completed s),
       trace := trace s @ Settled i # progress_event opts (Suc (completed s)) (length T)\<rparr>"

definition mark :: "nat \<Rightarrow> state \<Rightarrow> state" where
  "mark i s = s\<lparr>processing := set_add i (processing s), trace := trace s @ [Dispatch i]\<rparr>"

text \<open>
  \<open>settled_of\<close> lists the tasks whose finally block has run, in that order. In a state
  that has not aborted, with the tasks below \<open>a\<close> admitted and those in \<open>D\<close> done:
  exactly the indices in \<open>D\<close> hold their values, \<open>completed\<close> counts them, the others
  admitted are in progress, and the settle and progress events alternate as
  \<open>expected_sp\<close> says.
\<close>

primrec settled_of :: "event list \<Rightarrow> nat list" where
  "settled_of [] = []"
| "settled_of (e # tr) = (case e of Settled i \<Rightarrow> i # settled_of tr | _ \<Rightarrow> settled_of tr)"

primrec is_sp :: "event \<Rightarrow> bool" where
  "is_sp (Admit i) = False"
| "is_sp (Dispatch i) = False"
| "is_sp (Abort i) = False"
| "is_sp (Settled i) = True"
| "is_sp (Progress c t) = True"

definition expected_sp :: "options \<Rightarrow> nat \<Rightarrow> nat list \<Rightarrow> event list" where
  "expected_sp opts n order =
     concat (map (\<lambda>(j, i). Settled i # progress_event opts (Suc j) n) (enumerate 0 order))"

text \<open>
  \<open>prompt tr\<close>: in \<open>tr\<close> every \<open>Settled\<close> event is followed at once by a \<open>Progress\<close>
  event, and every \<open>Progress\<close> event follows a \<open>Settled\<close> event at once.
\<close>

fun prompt :: "event list \<Rightarrow> bool" where
  "prompt [] = True"
| "prompt (Settled i # Progress c t # tr) = prompt tr"
| "prompt (Settled i # tr) = False"
| "prompt (Progress c t # tr) = False"
| "prompt (e # tr) = prompt tr"

definition Wcore :: "tasks \<Rightarrow> options \<Rightarrow> nat \<Rightarrow> nat set \<Rightarrow> state \<Rightarrow> bool" where
  "Wcore T opts a D s \<longleftrightarrow>
     \<not> failed s \<and> a \<le> length T \<and> D \<subseteq> {..<a} \<and>
     length (results s) = length T \<and>
     (\<forall>i<length T. results s ! i = (if i \<in> D then Some (outv T i) else None)) \<and>
     completed s = card D \<and>
     set (inProgress s) = {..<a} - D \<and>
     queue s = [a..<length T] \<and>
     distinct (settled_of (trace s)) \<and> set (settled_of (trace s)) = D \<and>
     filter is_sp (trace s) = expected_sp opts (length T) (settled_of (trace s)) \<and>
     (onProgress opts = None \<or> prompt (trace s)) \<and>
     (failFast_of opts \<longrightarrow> (\<forall>i\<in>D. failure i (lookup T i) = None))"

text \<open>When the flag \<open>failed\<close> is set, \<open>firstError\<close> holds an error.\<close>

definition sane :: "state \<Rightarrow> bool" where
  "sane s \<longleftrightarrow> (failed s \<longrightarrow> firstError s \<noteq> None)"

text \<open>
  The invariant at the head of the outer loop, with the tasks below \<open>k\<close> done; and the
  wave that the loop body runs after filling \<open>inProgress\<close>.
\<close>

definition LI :: "tasks \<Rightarrow> options \<Rightarrow> nat \<Rightarrow> state \<Rightarrow> bool" where
  "LI T opts k s \<longleftrightarrow> Wcore T opts k {..<k} s \<and> set (processing s) = {..<k}"

definition wave :: "impl \<Rightarrow> tasks \<Rightarrow> options \<Rightarrow> (nat list \<Rightarrow> nat) \<Rightarrow> state \<Rightarrow> state" where
  "wave v T opts pick s1 =
     (case dispatch_all v T opts (inProgress s1) s1 of
        (s2, ps) \<Rightarrow> settle_all v T opts pick ps s2)"

text \<open>The calls of \<open>onProgress\<close> in a trace, in order, each with its two arguments.\<close>

primrec progress_calls :: "event list \<Rightarrow> (nat \<times> nat) list" where
  "progress_calls [] = []"
| "progress_calls (e # tr) =
     (case e of Progress c t \<Rightarrow> (c, t) # progress_calls tr | _ \<Rightarrow> progress_calls tr)"

text \<open>
  \<open>as_rejection\<close> turns a task that resolves with an \<open>Error\<close> instance into the task that
  rejects with the same \<open>Error\<close>, and leaves every other task as it is.
\<close>

fun as_rejection :: "task option \<Rightarrow> task option" where
  "as_rejection (Some (Resolves (ErrorObj m))) = Some (Rejects (ErrorObj m))"
| "as_rejection t = t"

text \<open>
  \<open>run_after r tr\<close> lists the tasks that are executing after the events \<open>tr\<close>, when
  those of \<open>r\<close> were executing before: a task executes from its \<open>Dispatch\<close> to its
  \<open>Settled\<close> event. \<open>executing tr\<close> starts with no task executing.
\<close>

primrec run_after :: "nat list \<Rightarrow> event list \<Rightarrow> nat list" where
  "run_after r [] = r"
| "run_after r (e # tr) =
     run_after (case e of Dispatch i \<Rightarrow> r @ [i] | Settled i \<Rightarrow> removeAll i r | _ \<Rightarrow> r) tr"

definition executing :: "event list \<Rightarrow> nat list" where
  "executing tr = run_after [] tr"

primrec dispatched_of :: "event list \<Rightarrow> nat list" where
  "dispatched_of [] = []"
| "dispatched_of (e # tr) = (case e of Dispatch i \<Rightarrow> i # dispatched_of tr | _ \<Rightarrow> dispatched_of tr)"

primrec admitted_of :: "event list \<Rightarrow> nat list" where
  "admitted_of [] = []"
| "admitted_of (e # tr) = (case e of Admit i \<Rightarrow> i # admitted_of tr | _ \<Rightarrow> admitted_of tr)"

text \<open>
  \<open>wf c r tr\<close>: along \<open>tr\<close>, starting with \<open>r\<close> executing, every admission happens while
  nothing executes and every dispatch while fewer than \<open>c\<close> tasks execute.
\<close>

primrec wf :: "int \<Rightarrow> nat list \<Rightarrow> event list \<Rightarrow> bool" where
  "wf c r [] = True"
| "wf c r (e # tr) =
     ((case e of Admit i \<Rightarrow> r = [] | Dispatch i \<Rightarrow> int (length r) < c | _ \<Rightarrow> True)
      \<and> wf c (case e of Dispatch i \<Rightarrow> r @ [i] | Settled i \<Rightarrow> removeAll i r | _ \<Rightarrow> r) tr)"

text \<open>
  What holds of the trace between two waves, with the tasks below \<open>k\<close> admitted: it is
  well formed, nothing executes, the dispatches came in ascending order and the
  admissions were 0, 1, ..., \<open>k - 1\<close>.
\<close>

definition TI :: "int \<Rightarrow> nat \<Rightarrow> event list \<Rightarrow> bool" where
  "TI c k tr \<longleftrightarrow>
     wf c [] tr \<and> run_after [] tr = [] \<and> sorted_wrt (<) (dispatched_of tr)
     \<and> set (dispatched_of tr) \<subseteq> {..<k} \<and> admitted_of tr = [0..<k]"

text \<open>The state in which a turn of the loop body ends, thrown or not.\<close>

fun after :: "(val \<times> state) + state \<Rightarrow> state" where
  "after (Inl (e, s)) = s"
| "after (Inr s) = s"

text \<open>
  \<open>quiet_after_abort tr\<close>: from the first \<open>Abort\<close> event of \<open>tr\<close> on, every event is an
  \<open>Abort\<close> or a \<open>Settled\<close> event: nothing is admitted, nothing dispatched, and
  \<open>onProgress\<close> is not called.
\<close>

primrec is_Abort :: "event \<Rightarrow> bool" where
  "is_Abort (Admit i) = False"
| "is_Abort (Dispatch i) = False"
| "is_Abort (Abort i) = True"
| "is_Abort (Settled i) = False"
| "is_Abort (Progress c t) = False"

primrec quiet :: "event \<Rightarrow> bool" where
  "quiet (Admit i) = False"
| "quiet (Dispatch i) = False"
| "quiet (Abort i) = True"
| "quiet (Settled i) = True"
| "quiet (Progress c t) = False"

definition quiet_after_abort :: "event list \<Rightarrow> bool" where
  "quiet_after_abort tr = list_all quiet (dropWhile (\<lambda>e. \<not> is_Abort e) tr)"

text \<open>
  \<open>follows s s'\<close>: the state \<open>s'\<close> comes after \<open>s\<close>, and the events in between are quiet
  from the moment the flag \<open>failed\<close> is set, which is at an \<open>Abort\<close> event.
\<close>

definition follows :: "state \<Rightarrow> state \<Rightarrow> bool" where
  "follows s s' \<longleftrightarrow>
     (\<exists>evs. trace s' = trace s @ evs \<and>
        (if failed s then failed s' \<and> list_all quiet evs
         else quiet_after_abort evs \<and> failed s' = list_ex is_Abort evs))"

text \<open>
  Three tasks in one wave; task 1 throws when invoked. Task 2 is then not dispatched, and
  task 0, already running, resolves afterwards: its value is not recorded.
\<close>

definition aborted_example :: "state" where
  "aborted_example =
     fst (dispatch_all TS [Some (Resolves (Num 1)), Some (Throws (Str ''X'')), Some (Resolves (Num 3))]
            \<lparr>concurrency = None, failFast = Some True, onProgress = Some Recorder\<rparr> [0, 1, 2]
            (fill 5 (init [Some (Resolves (Num 1)), Some (Throws (Str ''X'')), Some (Resolves (Num 3))])))"

section \<open>Effects of the steps\<close>

lemma toError_ErrorObj [simp]: "toError (ErrorObj m) = ErrorObj m"
  by (simp add: toError_def)

lemma isError_toError [simp]: "isError (toError e)"
  by (simp add: toError_def)

lemma call_onProgress_eq:
  "call_onProgress v opts c n s = s\<lparr>trace := trace s @ progress_event opts c n\<rparr>"
  by (cases v) (auto simp: call_onProgress_def progress_event_def split: option.splits)

lemma finally_block_eq:
  "finally_block v opts n i s =
     (if failed s
      then s\<lparr>inProgress := set_delete i (inProgress s), trace := trace s @ [Settled i]\<rparr>
      else s\<lparr>inProgress := set_delete i (inProgress s), completed := Suc (completed s),
             trace := trace s @ Settled i # progress_event opts (Suc (completed s)) n\<rparr>)"
  by (simp add: finally_block_def call_onProgress_eq Let_def)

lemma resume_failed: "failed s \<Longrightarrow> failed (resume v T opts i s)"
  by (simp add: resume_def finally_block_eq catch_block_def split: option.splits task.splits)

lemma resume_ok:
  assumes "suspends T i" and "\<not> failed (resume v T opts i s)"
  shows "resume v T opts i s = complete T opts i s"
  using assms
  by (auto simp: resume_def suspends_def outv_def complete_def finally_block_eq catch_block_def
           split: option.splits task.splits if_splits)

lemma resume_ok_failFast:
  assumes "suspends T i" and "\<not> failed (resume v T opts i s)" and "failFast_of opts"
  shows "failure i (lookup T i) = None"
  using assms
  by (auto simp: resume_def suspends_def finally_block_eq catch_block_def
           split: option.splits task.splits if_splits)

lemma processTask_failed: "failed s \<Longrightarrow> processTask v T opts i s = (s, False)"
  by (simp add: processTask_def)

lemma processTask_failed_mono:
  "failed s \<Longrightarrow> failed (fst (processTask v T opts i s))"
  by (simp add: processTask_def)

lemma processTask_ok:
  assumes "i \<notin> set (processing s)" and "\<not> failed (fst (processTask v T opts i s))"
  shows "processTask v T opts i s =
           (if suspends T i then (mark i s, True) else (complete T opts i (mark i s), False))"
  using assms
  by (auto simp: processTask_def suspends_def outv_def complete_def mark_def finally_block_eq
                 catch_block_def Let_def
           split: option.splits task.splits if_splits)

lemma processTask_ok_failFast:
  assumes "i \<notin> set (processing s)" and "\<not> failed (fst (processTask v T opts i s))"
  shows "\<not> (failFast_of opts \<and> \<not> suspends T i)"
  using assms
  by (auto simp: processTask_def suspends_def finally_block_eq catch_block_def Let_def
           split: option.splits task.splits if_splits)

lemma fill_eq:
  assumes "\<not> failed s" and "set (inProgress s) \<inter> set (queue s) = {}" and "distinct (queue s)"
  shows "fill c s = s\<lparr>queue := drop (min (nat (c - int (length (inProgress s)))) (length (queue s))) (queue s),
                     inProgress := inProgress s @ take (min (nat (c - int (length (inProgress s)))) (length (queue s))) (queue s),
                     trace := trace s @ map Admit (take (min (nat (c - int (length (inProgress s)))) (length (queue s))) (queue s))\<rparr>"
  using assms
proof (induction c s rule: fill.induct)
  case (1 c s)
  show ?case
  proof (cases "int (length (inProgress s)) < c \<and> queue s \<noteq> []")
    case False
    then show ?thesis
      by (subst fill.simps) (auto simp: min_def)
  next
    case True
    then obtain x q where q: "queue s = x # q" by (cases "queue s") auto
    let ?s' = "s\<lparr>queue := tl (queue s),
                      inProgress := set_add (hd (queue s)) (inProgress s),
                      trace := trace s @ [Admit (hd (queue s))]\<rparr>"
    have x: "x \<notin> set (inProgress s)" using "1.prems" q by auto
    have ih: "fill c ?s' = ?s'\<lparr>queue := drop (min (nat (c - int (length (inProgress ?s')))) (length (queue ?s'))) (queue ?s'),
                     inProgress := inProgress ?s' @ take (min (nat (c - int (length (inProgress ?s')))) (length (queue ?s'))) (queue ?s'),
                     trace := trace ?s' @ map Admit (take (min (nat (c - int (length (inProgress ?s')))) (length (queue ?s'))) (queue ?s'))\<rparr>"
      using True "1.prems" q x
      by (intro "1.IH") (auto simp: set_add_def)
    have m: "min (nat (c - int (length (inProgress s)))) (length (queue s))
           = Suc (min (nat (c - (1 + int (length (inProgress s))))) (length q))"
      using True q by (auto simp: min_def)
    have "fill c s = fill c ?s'"
      using True "1.prems" by (subst fill.simps) simp
    also note ih
    finally show ?thesis
      using x q m by (simp add: set_add_def)
  qed
qed

lemma fill_head:
  assumes "\<not> failed s" and "inProgress s = []" and "queue s = [a..<n]"
  shows "fill c s = s\<lparr>queue := [a + min (nat c) (n - a)..<n],
                     inProgress := [a..<a + min (nat c) (n - a)],
                     trace := trace s @ map Admit [a..<a + min (nat c) (n - a)]\<rparr>"
proof -
  have "a + min (nat c) (n - a) \<le> n \<or> n \<le> a"
    by arith
  then have "take (min (nat c) (n - a)) [a..<n] = [a..<a + min (nat c) (n - a)]"
    by (auto simp: take_upt)
  moreover have "drop (min (nat c) (n - a)) [a..<n] = [a + min (nat c) (n - a)..<n]"
    by (simp add: drop_upt)
  ultimately show ?thesis
    using fill_eq[of s c] assms by simp
qed

section \<open>The invariant of a run that has not aborted\<close>

lemma settled_of_append [simp]: "settled_of (xs @ ys) = settled_of xs @ settled_of ys"
  by (induction xs) (auto split: event.splits)

lemma settled_of_progress_event [simp]: "settled_of (progress_event opts c n) = []"
  by (simp add: progress_event_def)

lemma settled_of_Admit [simp]: "settled_of (map Admit xs) = []"
  by (induction xs) auto

lemma filter_is_sp_progress_event [simp]:
  "filter is_sp (progress_event opts c n) = progress_event opts c n"
  by (simp add: progress_event_def)

lemma filter_is_sp_Admit [simp]: "filter is_sp (map Admit xs) = []"
  by (induction xs) auto

lemma expected_sp_snoc:
  "expected_sp opts n (order @ [i]) =
     expected_sp opts n order @ Settled i # progress_event opts (Suc (length order)) n"
  by (simp add: expected_sp_def enumerate_append_eq)

lemma prompt_append: "prompt xs \<Longrightarrow> prompt (xs @ ys) = prompt ys"
  by (induction xs rule: prompt.induct) auto

lemma prompt_Admit [simp]: "prompt (map Admit xs)"
  by (induction xs) auto

lemma Wcore_init: "Wcore T opts 0 {} (init T)"
  by (simp add: Wcore_def init_def expected_sp_def)

lemma Wcore_mark: "Wcore T opts a D s \<Longrightarrow> Wcore T opts a D (mark i s)"
  by (auto simp: Wcore_def mark_def prompt_append)

lemma Wcore_complete:
  assumes "Wcore T opts a D s" and "i \<notin> D" and "i < a"
    and "failFast_of opts \<longrightarrow> failure i (lookup T i) = None"
  shows "Wcore T opts a (insert i D) (complete T opts i s)"
proof -
  have fin: "finite D" using assms(1) by (auto simp: Wcore_def intro: finite_subset)
  have len: "length (settled_of (trace s)) = completed s"
    using assms(1) by (auto simp: Wcore_def dest: distinct_card)
  have i: "i < length T" using assms by (simp add: Wcore_def)
  have "\<forall>j<length T. array_set (results s) i (outv T i) ! j
          = (if j \<in> insert i D then Some (outv T j) else None)"
    using assms(1) i by (auto simp: Wcore_def array_set_def nth_list_update)
  moreover have "length (array_set (results s) i (outv T i)) = length T"
    using assms(1) i by (simp add: Wcore_def array_set_def)
  moreover have "set (set_delete i (inProgress s)) = {..<a} - insert i D"
    using assms(1) by (auto simp: Wcore_def set_delete_def)
  moreover have "Suc (completed s) = card (insert i D)"
    using assms fin by (simp add: Wcore_def)
  moreover have "filter is_sp (trace (complete T opts i s))
      = expected_sp opts (length T) (settled_of (trace (complete T opts i s)))"
    using assms(1) len by (simp add: Wcore_def complete_def expected_sp_snoc)
  moreover have "distinct (settled_of (trace (complete T opts i s)))
      \<and> set (settled_of (trace (complete T opts i s))) = insert i D"
    using assms by (auto simp: Wcore_def complete_def)
  moreover have "onProgress opts = None \<or> prompt (trace (complete T opts i s))"
    using assms(1) by (auto simp: Wcore_def complete_def prompt_append progress_event_def)
  ultimately show ?thesis
    using assms by (simp add: Wcore_def complete_def)
qed

lemma Wcore_fill:
  assumes "Wcore T opts a {..<a} s"
  shows "Wcore T opts (a + min (nat c) (length T - a)) {..<a} (fill c s)
         \<and> inProgress (fill c s) = [a..<a + min (nat c) (length T - a)]
         \<and> processing (fill c s) = processing s
         \<and> trace (fill c s) = trace s @ map Admit [a..<a + min (nat c) (length T - a)]"
proof -
  have ip: "inProgress s = []" using assms by (simp add: Wcore_def)
  have "fill c s = s\<lparr>queue := [a + min (nat c) (length T - a)..<length T],
                     inProgress := [a..<a + min (nat c) (length T - a)],
                     trace := trace s @ map Admit [a..<a + min (nat c) (length T - a)]\<rparr>"
    using assms ip by (intro fill_head) (simp_all add: Wcore_def)
  then show ?thesis
    using assms by (auto simp: Wcore_def prompt_append)
qed

lemma sane_resume: "sane s \<Longrightarrow> sane (resume v T opts i s)"
  by (auto simp: sane_def resume_def finally_block_eq catch_block_def split: option.splits task.splits)

lemma sane_processTask: "sane s \<Longrightarrow> sane (fst (processTask v T opts i s))"
  by (auto simp: sane_def processTask_def finally_block_eq catch_block_def Let_def
           split: option.splits task.splits)

lemma fst_dispatch_all_Cons:
  "fst (dispatch_all v T opts (i # js) s)
     = fst (dispatch_all v T opts js (fst (processTask v T opts i s)))"
  by (simp split: prod.splits)

lemma sane_dispatch_all: "sane s \<Longrightarrow> sane (fst (dispatch_all v T opts js s))"
proof (induction js arbitrary: s)
  case Nil
  then show ?case by simp
next
  case (Cons i js)
  from Cons.IH[OF sane_processTask[OF Cons.prems, of v T opts i]]
  show ?case by (simp only: fst_dispatch_all_Cons)
qed

lemma sane_settle_all: "sane s \<Longrightarrow> sane (settle_all v T opts pick ps s)"
proof (induction v T opts pick ps s rule: settle_all.induct)
  case (1 v T opts pick ps s)
  show ?case
  proof (cases "ps = []")
    case True
    with 1 show ?thesis by (simp add: settle_all.simps)
  next
    case False
    with 1 show ?thesis
      by (subst settle_all.simps) (simp add: Let_def sane_resume)
  qed
qed

lemma dispatch_all_failed: "failed s \<Longrightarrow> dispatch_all v T opts js s = (s, [])"
  by (induction js) (simp_all add: processTask_failed)

lemma dispatch_all_failed_mono: "failed s \<Longrightarrow> failed (fst (dispatch_all v T opts js s))"
  by (simp add: dispatch_all_failed)

lemma settle_all_failed_mono: "failed s \<Longrightarrow> failed (settle_all v T opts pick ps s)"
proof (induction v T opts pick ps s rule: settle_all.induct)
  case (1 v T opts pick ps s)
  show ?case
  proof (cases "ps = []")
    case True
    with 1 show ?thesis by (simp add: settle_all.simps)
  next
    case False
    with 1 show ?thesis
      by (subst settle_all.simps) (simp add: Let_def resume_failed)
  qed
qed

lemma processing_complete [simp]: "processing (complete T opts i s) = processing s"
  by (simp add: complete_def)

lemma set_processing_mark [simp]: "set (processing (mark i s)) = insert i (set (processing s))"
  by (auto simp: mark_def set_add_def)

lemma dispatch_all_ok:
  assumes "Wcore T opts a D s" and "distinct js" and "set js \<subseteq> {..<a} - D"
    and "set js \<inter> set (processing s) = {}"
    and "dispatch_all v T opts js s = (s2, ps)" and "\<not> failed s2"
  shows "Wcore T opts a (D \<union> {i \<in> set js. \<not> suspends T i}) s2
         \<and> ps = filter (suspends T) js
         \<and> set (processing s2) = set (processing s) \<union> set js"
  using assms
proof (induction js arbitrary: s D s2 ps)
  case Nil
  then show ?case by simp
next
  case (Cons i js)
  obtain s1 susp where p: "processTask v T opts i s = (s1, susp)"
    by (cases "processTask v T opts i s")
  obtain s2' ps' where d: "dispatch_all v T opts js s1 = (s2', ps')"
    by (cases "dispatch_all v T opts js s1")
  from Cons.prems(5) p d have s2: "s2 = s2'" and ps: "ps = (if susp then i # ps' else ps')"
    by auto
  have nf1: "\<not> failed s1"
    using dispatch_all_failed_mono[of s1 v T opts js] d Cons.prems(6) s2 by auto
  have i: "i \<notin> set (processing s)" "i \<notin> D" "i < a" "i \<notin> set js"
    using Cons.prems by auto
  from processTask_ok[of i s v T opts] i(1) nf1 p
  have eq: "(s1, susp) = (if suspends T i then (mark i s, True) else (complete T opts i (mark i s), False))"
    by simp
  show ?case
  proof (cases "suspends T i")
    case True
    with eq have s1: "s1 = mark i s" and susp: "susp" by auto
    have W1: "Wcore T opts a D s1"
      using Cons.prems(1) s1 by (simp add: Wcore_mark)
    have "Wcore T opts a (D \<union> {i \<in> set js. \<not> suspends T i}) s2'
         \<and> ps' = filter (suspends T) js
         \<and> set (processing s2') = set (processing s1) \<union> set js"
      using Cons.prems i s1 s2 d W1 by (intro Cons.IH) auto
    moreover have "D \<union> {j \<in> set (i # js). \<not> suspends T j} = D \<union> {i \<in> set js. \<not> suspends T i}"
      using True by auto
    ultimately show ?thesis
      using True s1 s2 ps susp by auto
  next
    case False
    with eq have s1: "s1 = complete T opts i (mark i s)" and susp: "\<not> susp" by auto
    have ff: "failFast_of opts \<longrightarrow> failure i (lookup T i) = None"
      using processTask_ok_failFast[of i s v T opts] i(1) nf1 p False by auto
    have W1: "Wcore T opts a (insert i D) s1"
      unfolding s1 by (rule Wcore_complete[OF Wcore_mark[OF Cons.prems(1)] i(2) i(3) ff])
    have "Wcore T opts a (insert i D \<union> {i \<in> set js. \<not> suspends T i}) s2'
         \<and> ps' = filter (suspends T) js
         \<and> set (processing s2') = set (processing s1) \<union> set js"
      using Cons.prems i s1 s2 d W1 by (intro Cons.IH) auto
    moreover have "D \<union> {j \<in> set (i # js). \<not> suspends T j} = insert i D \<union> {i \<in> set js. \<not> suspends T i}"
      using False by auto
    ultimately show ?thesis
      using False s1 s2 ps susp by auto
  qed
qed

lemma settle_all_ok:
  assumes "Wcore T opts a D s" and "distinct ps" and "set ps \<subseteq> {..<a} - D"
    and "\<forall>i\<in>set ps. suspends T i"
    and "\<not> failed (settle_all v T opts pick ps s)"
  shows "Wcore T opts a (D \<union> set ps) (settle_all v T opts pick ps s)
         \<and> processing (settle_all v T opts pick ps s) = processing s"
  using assms
proof (induction v T opts pick ps s arbitrary: D rule: settle_all.induct)
  case (1 v T opts pick ps s)
  show ?case
  proof (cases "ps = []")
    case True
    with "1.prems" show ?thesis by (simp add: settle_all.simps)
  next
    case False
    define i where "i = ps ! (pick ps mod length ps)"
    have i: "i \<in> set ps" using False by (simp add: i_def)
    have unf: "settle_all v T opts pick ps s
             = settle_all v T opts pick (remove1 i ps) (resume v T opts i s)"
      using False by (subst settle_all.simps) (simp add: Let_def i_def)
    have nf: "\<not> failed (resume v T opts i s)"
      using settle_all_failed_mono[of "resume v T opts i s" v T opts pick "remove1 i ps"]
            "1.prems"(5) unf by auto
    have r: "resume v T opts i s = complete T opts i s"
      using resume_ok[of T i v opts s] i "1.prems"(4) nf by simp
    have W1: "Wcore T opts a (insert i D) (resume v T opts i s)"
      using "1.prems" i r resume_ok_failFast[of T i v opts s] nf
      by (auto intro!: Wcore_complete)
    have "Wcore T opts a (insert i D \<union> set (remove1 i ps))
            (settle_all v T opts pick (remove1 i ps) (resume v T opts i s))
         \<and> processing (settle_all v T opts pick (remove1 i ps) (resume v T opts i s))
             = processing (resume v T opts i s)"
      using False i_def W1 "1.prems" unf
      by (intro "1.IH") (auto simp del: i_def)
    moreover have "insert i D \<union> set (remove1 i ps) = D \<union> set ps"
      using i "1.prems"(2) by auto
    ultimately show ?thesis
      using unf r by simp
  qed
qed

section \<open>The loop\<close>

lemma iteration_wave:
  "iteration v T opts pick s =
     (let s1 = fill (concurrency_of opts) s
      in if inProgress s1 = [] then Inr s1
         else let s3 = wave v T opts pick s1
              in if failed s3 \<and> firstError s3 \<noteq> None then Inl (the (firstError s3), s3)
                 else Inr s3)"
  by (auto simp: iteration_def wave_def Let_def split: prod.splits option.splits)

lemma sane_wave: "sane s \<Longrightarrow> sane (wave v T opts pick s)"
  using sane_settle_all sane_dispatch_all[of s v T opts "inProgress s"]
  by (auto simp: wave_def split: prod.splits)

lemma wave_LI:
  assumes "Wcore T opts a {..<k} s1" and "inProgress s1 = [k..<a]" and "set (processing s1) = {..<k}"
    and "k \<le> a" and "\<not> failed (wave v T opts pick s1)"
  shows "LI T opts a (wave v T opts pick s1)"
proof -
  obtain s2 ps where d: "dispatch_all v T opts [k..<a] s1 = (s2, ps)"
    by (cases "dispatch_all v T opts [k..<a] s1")
  have w: "wave v T opts pick s1 = settle_all v T opts pick ps s2"
    using d assms(2) by (simp add: wave_def)
  have nf2: "\<not> failed s2"
    using settle_all_failed_mono[of s2 v T opts pick ps] assms(5) w by auto
  have js: "distinct [k..<a]" "set [k..<a] \<subseteq> {..<a} - {..<k}"
    "set [k..<a] \<inter> set (processing s1) = {}"
    unfolding assms(3) by auto
  note d_ok = dispatch_all_ok[OF assms(1) js d nf2]
  let ?D = "{..<k} \<union> {i \<in> set [k..<a]. \<not> suspends T i}"
  have W2: "Wcore T opts a ?D s2" and ps: "ps = filter (suspends T) [k..<a]"
    and pr2: "set (processing s2) = set (processing s1) \<union> set [k..<a]"
    using d_ok by blast+
  have ps1: "distinct ps" using ps by simp
  have ps2: "set ps \<subseteq> {..<a} - ?D" unfolding ps by auto
  have ps3: "\<forall>i\<in>set ps. suspends T i" unfolding ps by simp
  have nf3: "\<not> failed (settle_all v T opts pick ps s2)" using assms(5) w by simp
  note s_ok = settle_all_ok[OF W2 ps1 ps2 ps3 nf3]
  have "?D \<union> set ps = {..<a}"
    unfolding ps using assms(4) by auto
  moreover have "set (processing s1) \<union> set [k..<a] = {..<a}"
    unfolding assms(3) using assms(4) by auto
  ultimately show ?thesis
    using s_ok pr2 w by (simp add: LI_def)
qed

lemma iteration_LI:
  assumes "LI T opts k s" and "iteration v T opts pick s = Inr s3"
  shows "LI T opts (k + min (nat (concurrency_of opts)) (length T - k)) s3"
proof -
  let ?c = "concurrency_of opts"
  let ?a = "k + min (nat ?c) (length T - k)"
  let ?s1 = "fill ?c s"
  have W: "Wcore T opts k {..<k} s" and pr: "set (processing s) = {..<k}"
    using assms(1) by (simp_all add: LI_def)
  have f: "Wcore T opts ?a {..<k} ?s1" "inProgress ?s1 = [k..<?a]"
          "processing ?s1 = processing s"
    using Wcore_fill[OF W, of ?c] by simp_all
  show ?thesis
  proof (cases "inProgress ?s1 = []")
    case True
    then have "[k..<?a] = []" using f(2) by simp
    then have "?a \<le> k" by auto
    then have "?a = k" by arith
    moreover have "s3 = ?s1" using True assms(2) by (simp add: iteration_wave)
    ultimately show ?thesis using f pr by (simp add: LI_def)
  next
    case False
    have "sane ?s1" using f(1) by (simp add: sane_def Wcore_def)
    then have sn: "sane (wave v T opts pick ?s1)" by (rule sane_wave)
    from False assms(2) have s3: "s3 = wave v T opts pick ?s1"
      and "\<not> (failed (wave v T opts pick ?s1) \<and> firstError (wave v T opts pick ?s1) \<noteq> None)"
      by (auto simp: iteration_wave Let_def split: if_splits)
    with sn have nf: "\<not> failed (wave v T opts pick ?s1)" by (auto simp: sane_def)
    show ?thesis
      unfolding s3 using f pr nf by (intro wave_LI[where k = k]) simp_all
  qed
qed

lemma iteration_Inl:
  assumes "iteration v T opts pick s = Inl (e, s3)"
  shows "failed s3 \<and> firstError s3 = Some e"
  using assms by (auto simp: iteration_wave Let_def split: if_splits)

lemma run_loop_exit:
  assumes "run_loop v T opts pick s = Some (out, s')" and "I s"
    and "\<And>s s1. I s \<Longrightarrow> queue s \<noteq> [] \<Longrightarrow> \<not> failed s \<Longrightarrow>
            iteration v T opts pick s = Inr s1 \<Longrightarrow> I s1"
  shows "\<exists>s0. I s0 \<and>
           ((queue s0 = [] \<or> failed s0) \<and> out = finish s0 \<and> s' = s0
            \<or> queue s0 \<noteq> [] \<and> \<not> failed s0
               \<and> (\<exists>e. iteration v T opts pick s0 = Inl (e, s') \<and> out = TaskError e))"
proof -
  let ?Q = "\<lambda>v T opts pick y. \<exists>s0. I s0 \<and>
           ((queue s0 = [] \<or> failed s0) \<and> fst y = finish s0 \<and> snd y = s0
            \<or> queue s0 \<noteq> [] \<and> \<not> failed s0
               \<and> (\<exists>e. iteration v T opts pick s0 = Inl (e, snd y) \<and> fst y = TaskError e))"
  let ?P = "\<lambda>v T opts pick s y. I s \<longrightarrow>
              (\<forall>s s1. I s \<longrightarrow> queue s \<noteq> [] \<longrightarrow> \<not> failed s \<longrightarrow>
                 iteration v T opts pick s = Inr s1 \<longrightarrow> I s1) \<longrightarrow> ?Q v T opts pick y"
  have "?P v T opts pick s (out, s')"
  proof (rule run_loop.raw_induct[where P = ?P, OF _ assms(1)], intro impI)
    fix rl :: "impl \<Rightarrow> tasks \<Rightarrow> options \<Rightarrow> (nat list \<Rightarrow> nat) \<Rightarrow> state \<Rightarrow> (outcome \<times> state) option"
    fix v T opts pick s y
    assume IH: "\<And>v T opts pick s y. rl v T opts pick s = Some y \<Longrightarrow> ?P v T opts pick s y"
    assume eq: "(if queue s \<noteq> [] \<and> \<not> failed s
      then case iteration v T opts pick s of
           Inl (e, s') \<Rightarrow> Some (TaskError e, s')
           | Inr s' \<Rightarrow> rl v T opts pick s'
      else Some (finish s, s)) = Some y"
    assume I: "I s"
    assume step: "\<forall>s s1. I s \<longrightarrow> queue s \<noteq> [] \<longrightarrow> \<not> failed s \<longrightarrow>
                 iteration v T opts pick s = Inr s1 \<longrightarrow> I s1"
    show "?Q v T opts pick y"
    proof (cases "queue s \<noteq> [] \<and> \<not> failed s")
      case False
      with eq I show ?thesis by (intro exI[of _ s]) auto
    next
      case True
      show ?thesis
      proof (cases "iteration v T opts pick s")
        case (Inl p)
        with eq True I show ?thesis
          by (intro exI[of _ s]) (auto split: prod.splits)
      next
        case (Inr s1)
        with eq True have "rl v T opts pick s1 = Some y" by simp
        moreover have "I s1" using step I True Inr by blast
        ultimately show ?thesis using IH step by blast
      qed
    qed
  qed
  with assms(2,3) show ?thesis by simp
qed

lemma run_loop_terminates:
  assumes "1 \<le> concurrency_of opts" and "LI T opts k s"
  shows "\<exists>y. run_loop v T opts pick s = Some y"
  using assms(2)
proof (induction "length T - k" arbitrary: k s rule: less_induct)
  case less
  have q: "queue s = [k..<length T]" and nf: "\<not> failed s"
    using less.prems by (simp_all add: LI_def Wcore_def)
  show ?case
  proof (cases "k < length T")
    case False
    with q show ?thesis by (subst run_loop.simps) simp
  next
    case True
    show ?thesis
    proof (cases "iteration v T opts pick s")
      case (Inl p)
      with True q nf show ?thesis
        by (subst run_loop.simps) (auto split: prod.splits)
    next
      case (Inr s1)
      let ?k' = "k + min (nat (concurrency_of opts)) (length T - k)"
      have "LI T opts ?k' s1" using less.prems Inr by (rule iteration_LI)
      moreover have "length T - ?k' < length T - k"
        using True assms(1) by (auto simp: min_def)
      ultimately have "\<exists>y. run_loop v T opts pick s1 = Some y"
        by (rule less.hyps[rotated])
      with True q nf Inr show ?thesis
        by (subst run_loop.simps) simp
    qed
  qed
qed

lemma LI_init: "LI T opts 0 (init T)"
  using Wcore_init[of T opts] by (simp add: LI_def init_def)

lemma asyncBatch_terminates:
  assumes "1 \<le> concurrency_of opts"
  shows "\<exists>y. asyncBatch v T opts pick = Some y"
  unfolding asyncBatch_def using assms LI_init by (rule run_loop_terminates)

lemma asyncBatch_cases:
  assumes "asyncBatch v T opts pick = Some (out, s')"
  shows "LI T opts (length T) s' \<and> out = finish s'
         \<or> failed s' \<and> (\<exists>e. out = TaskError e \<and> firstError s' = Some e)"
proof -
  let ?I = "\<lambda>s. \<exists>k. LI T opts k s"
  have "\<exists>s0. ?I s0 \<and>
           ((queue s0 = [] \<or> failed s0) \<and> out = finish s0 \<and> s' = s0
            \<or> queue s0 \<noteq> [] \<and> \<not> failed s0
               \<and> (\<exists>e. iteration v T opts pick s0 = Inl (e, s') \<and> out = TaskError e))"
  proof (rule run_loop_exit[where I = ?I])
    show "run_loop v T opts pick (init T) = Some (out, s')"
      using assms by (simp add: asyncBatch_def)
    show "?I (init T)" using LI_init by blast
    show "?I s1" if "?I s" "iteration v T opts pick s = Inr s1" for s s1
      using that iteration_LI by blast
  qed
  then obtain s0 k where k: "LI T opts k s0"
    and c: "(queue s0 = [] \<or> failed s0) \<and> out = finish s0 \<and> s' = s0
            \<or> queue s0 \<noteq> [] \<and> \<not> failed s0
               \<and> (\<exists>e. iteration v T opts pick s0 = Inl (e, s') \<and> out = TaskError e)"
    by blast
  from c show ?thesis
  proof
    assume a: "(queue s0 = [] \<or> failed s0) \<and> out = finish s0 \<and> s' = s0"
    with k have "queue s0 = []" by (auto simp: LI_def Wcore_def)
    moreover have "queue s0 = [k..<length T]" "k \<le> length T"
      using k by (simp_all add: LI_def Wcore_def)
    ultimately have "[k..<length T] = []" by simp
    then have "length T \<le> k" by auto
    with \<open>k \<le> length T\<close> have "k = length T" by arith
    with k a show ?thesis by simp
  next
    assume "queue s0 \<noteq> [] \<and> \<not> failed s0
               \<and> (\<exists>e. iteration v T opts pick s0 = Inl (e, s') \<and> out = TaskError e)"
    then show ?thesis using iteration_Inl by blast
  qed
qed

lemma LI_results:
  assumes "LI T opts (length T) s"
  shows "results s = map (\<lambda>i. Some (outv T i)) [0..<length T]"
  using assms by (intro nth_equalityI) (auto simp: LI_def Wcore_def)

section \<open>The empty task list\<close>

text \<open>
  C1. For the empty task list the spec promises an empty result list and no error. The
  code creates an empty \<open>results\<close> array, skips the loop, and \<open>every\<close> holds of the
  empty array: the call throws the aggregate error with the bare prefix as its
  message, whatever the options are. No event happens, so \<open>onProgress\<close> is not called.
\<close>

theorem asyncBatch_empty_throws:
  "asyncBatch v [] opts pick = Some (AllFailed ''All tasks failed to execute: '', init [])
   \<and> trace (init []) = []"
  by (simp add: asyncBatch_def run_loop.simps init_def finish_def allFailed_def)

section \<open>Fail-fast: which error is thrown\<close>

text \<open>
  C2. The spec promises that a fail-fast run throws the error of the first failure in
  settlement order. The catch block assigns \<open>firstError\<close> at every failure, also when
  \<open>failed\<close> is already set, so a task of the same wave that rejects later replaces it.
  Two tasks reject with the errors A and B, in that order: the run throws B.
\<close>

theorem failFast_throws_last_failure:
  "map_option (\<lambda>(out, s). (out, trace s))
     (asyncBatch TS [Some (Rejects (ErrorObj ''A'')), Some (Rejects (ErrorObj ''B''))]
        \<lparr>concurrency = None, failFast = Some True, onProgress = None\<rparr> fifo)
   = Some (TaskError (ErrorObj ''B''),
        [Admit 0, Admit 1, Dispatch 0, Dispatch 1, Abort 0, Settled 0, Abort 1, Settled 1])
   \<and> map_option (\<lambda>(out, s). (out, trace s))
     (asyncBatch JS [Some (Rejects (ErrorObj ''A'')), Some (Rejects (ErrorObj ''B''))]
        \<lparr>concurrency = None, failFast = Some True, onProgress = None\<rparr> fifo)
   = Some (TaskError (ErrorObj ''B''),
        [Admit 0, Admit 1, Dispatch 0, Dispatch 1, Abort 0, Settled 0, Abort 1, Settled 1])"
  by code_simp

section \<open>Concurrency below one\<close>

text \<open>
  With a concurrency below one the fill loop admits nothing; with nothing in progress
  the outer loop goes round on the same state.
\<close>

lemma run_loop_stuck:
  assumes "run_loop v T opts pick s = Some y"
  shows "\<not> (concurrency_of opts < 1 \<and> inProgress s = [] \<and> queue s \<noteq> [] \<and> \<not> failed s)"
proof (rule run_loop.raw_induct[OF _ assms])
  fix rl :: "impl \<Rightarrow> tasks \<Rightarrow> options \<Rightarrow> (nat list \<Rightarrow> nat) \<Rightarrow> state \<Rightarrow> (outcome \<times> state) option"
  fix v T opts pick s y
  assume IH: "\<And>v T opts pick s y. rl v T opts pick s = Some y \<Longrightarrow>
     \<not> (concurrency_of opts < 1 \<and> inProgress s = [] \<and> queue s \<noteq> [] \<and> \<not> failed s)"
  assume eq: "(if queue s \<noteq> [] \<and> \<not> failed s
      then case iteration v T opts pick s of
           Inl (e, s') \<Rightarrow> Some (TaskError e, s')
           | Inr s' \<Rightarrow> rl v T opts pick s'
      else Some (finish s, s)) = Some y"
  show "\<not> (concurrency_of opts < 1 \<and> inProgress s = [] \<and> queue s \<noteq> [] \<and> \<not> failed s)"
  proof
    assume a: "concurrency_of opts < 1 \<and> inProgress s = [] \<and> queue s \<noteq> [] \<and> \<not> failed s"
    then have f: "fill (concurrency_of opts) s = s"
      by (subst fill.simps) simp
    with a have it: "iteration v T opts pick s = Inr s"
      by (simp add: iteration_def)
    with a eq have "rl v T opts pick s = Some y" by simp
    from IH[OF this] a show False by simp
  qed
qed

lemma asyncBatch_stuck:
  assumes "concurrency_of opts < 1" and "T \<noteq> []"
  shows "asyncBatch v T opts pick = None"
proof (cases "asyncBatch v T opts pick")
  case None
  then show ?thesis .
next
  case (Some y)
  then have "run_loop v T opts pick (init T) = Some y"
    by (simp add: asyncBatch_def)
  from run_loop_stuck[OF this] assms show ?thesis
    by (simp add: init_def)
qed

text \<open>
  C3, as the spec states it: a concurrency below one is rejected with a configuration
  error before any task runs. The code validates nothing. With one task and concurrency
  0 the call raises no error and returns nothing: it never settles.
\<close>

theorem concurrency_zero_no_error_counterexample:
  "asyncBatch TS [Some (Resolves (Num 1))]
     \<lparr>concurrency = Some 0, failFast = None, onProgress = None\<rparr> fifo = None"
  by (rule asyncBatch_stuck) (simp_all add: concurrency_of_def)

text \<open>
  On the numbers: at a finite value \<open>c\<close> the comparison of line 60 is the comparison of
  the integers at \<open>\<lceil>c\<rceil>\<close>, and at a value of at most zero it is false from the start.
\<close>

lemma size_less_ceiling: "size_less n (Finite c) = (int n < \<lceil>c\<rceil>)"
  by (simp add: less_ceiling_iff)

lemma fill_number_Finite: "fill_number (Finite c) s = fill \<lceil>c\<rceil> s"
proof (induction "\<lceil>c\<rceil>" s rule: fill.induct)
  case (1 s)
  show ?case
  proof (cases "int (length (inProgress s)) < \<lceil>c\<rceil> \<and> queue s \<noteq> [] \<and> \<not> failed s")
    case True
    then have "fill_number (Finite c) s
        = fill_number (Finite c) (s\<lparr>queue := tl (queue s),
                                     inProgress := set_add (hd (queue s)) (inProgress s),
                                     trace := trace s @ [Admit (hd (queue s))]\<rparr>)"
      by (subst fill_number.simps) (simp add: size_less_ceiling del: size_less.simps)
    also have "\<dots> = fill \<lceil>c\<rceil> (s\<lparr>queue := tl (queue s),
                                     inProgress := set_add (hd (queue s)) (inProgress s),
                                     trace := trace s @ [Admit (hd (queue s))]\<rparr>)"
      using True by (intro 1) simp_all
    also have "\<dots> = fill \<lceil>c\<rceil> s"
      using True by (subst (2) fill.simps) simp
    finally show ?thesis .
  next
    case False
    then have "fill_number (Finite c) s = s"
      by (subst fill_number.simps) (auto simp add: size_less_ceiling simp del: size_less.simps)
    moreover from False have "fill \<lceil>c\<rceil> s = s"
      by (subst fill.simps) auto
    ultimately show ?thesis by simp
  qed
qed

lemma fill_number_at_most_zero:
  assumes "at_most_zero c"
  shows "fill_number c s = s"
  using assms by (subst fill_number.simps, cases c) simp_all

text \<open>The field \<open>concurrency\<close> of the options is read by \<open>concurrency_of\<close> only.\<close>

lemma failFast_of_concurrency [simp]:
  "failFast_of (opts\<lparr>concurrency := x\<rparr>) = failFast_of opts"
  by (simp add: failFast_of_def)

lemma call_onProgress_concurrency [simp]:
  "call_onProgress v (opts\<lparr>concurrency := x\<rparr>) = call_onProgress v opts"
  by (intro ext) (simp add: call_onProgress_def split: impl.splits)

lemma finally_block_concurrency [simp]:
  "finally_block v (opts\<lparr>concurrency := x\<rparr>) = finally_block v opts"
  by (intro ext) (simp add: finally_block_def Let_def)

lemma catch_block_concurrency [simp]:
  "catch_block (opts\<lparr>concurrency := x\<rparr>) = catch_block opts"
  by (intro ext) (simp add: catch_block_def)

lemma processTask_concurrency [simp]:
  "processTask v T (opts\<lparr>concurrency := x\<rparr>) = processTask v T opts"
  by (intro ext) (simp add: processTask_def Let_def split: option.splits task.splits)

lemma resume_concurrency [simp]:
  "resume v T (opts\<lparr>concurrency := x\<rparr>) = resume v T opts"
  by (intro ext) (simp add: resume_def split: option.splits task.splits)

lemma dispatch_all_concurrency [simp]:
  "dispatch_all v T (opts\<lparr>concurrency := x\<rparr>) js s = dispatch_all v T opts js s"
  by (induction js arbitrary: s) (simp_all split: prod.splits)

lemma settle_all_concurrency [simp]:
  "settle_all v T (opts\<lparr>concurrency := x\<rparr>) pick ps s = settle_all v T opts pick ps s"
proof (induction v T opts pick ps s rule: settle_all.induct)
  case (1 v T opts pick ps s)
  show ?case
  proof (cases "ps = []")
    case True
    then show ?thesis by (simp add: settle_all.simps)
  next
    case False
    with 1 show ?thesis
      by (subst settle_all.simps, subst (2) settle_all.simps) (simp add: Let_def)
  qed
qed

lemma iteration_number_Finite:
  "iteration_number v T (Finite c) opts pick s
     = iteration v T (opts\<lparr>concurrency := Some \<lceil>c\<rceil>\<rparr>) pick s"
  by (simp add: iteration_number_def iteration_def fill_number_Finite concurrency_of_def Let_def
        split: prod.splits)

lemma run_loop_number_transfer:
  assumes "run_loop_number v T c opts pick s = Some y"
    and "\<And>s. iteration_number v T c opts pick s = iteration v T opts' pick s"
  shows "run_loop v T opts' pick s = Some y"
proof -
  let ?P = "\<lambda>v T c opts pick s y.
              (\<forall>s. iteration_number v T c opts pick s = iteration v T opts' pick s) \<longrightarrow>
              run_loop v T opts' pick s = Some y"
  have "?P v T c opts pick s y"
  proof (rule run_loop_number.raw_induct[where P = ?P, OF _ assms(1)], intro impI)
    fix rl :: "impl \<Rightarrow> tasks \<Rightarrow> number \<Rightarrow> options \<Rightarrow> (nat list \<Rightarrow> nat) \<Rightarrow> state
                 \<Rightarrow> (outcome \<times> state) option"
    fix v T c opts pick s y
    assume IH: "\<And>v T c opts pick s y. rl v T c opts pick s = Some y \<Longrightarrow> ?P v T c opts pick s y"
    assume eq: "(if queue s \<noteq> [] \<and> \<not> failed s
      then case iteration_number v T c opts pick s of
           Inl (e, s') \<Rightarrow> Some (TaskError e, s')
           | Inr s' \<Rightarrow> rl v T c opts pick s'
      else Some (finish s, s)) = Some y"
    assume same: "\<forall>s. iteration_number v T c opts pick s = iteration v T opts' pick s"
    show "run_loop v T opts' pick s = Some y"
    proof (cases "queue s \<noteq> [] \<and> \<not> failed s")
      case False
      with eq show ?thesis by (subst run_loop.simps) auto
    next
      case True
      show ?thesis
      proof (cases "iteration v T opts' pick s")
        case (Inl p)
        with eq True same show ?thesis
          by (subst run_loop.simps) (simp split: prod.splits)
      next
        case (Inr s1)
        with eq True same have "rl v T c opts pick s1 = Some y" by simp
        then have "run_loop v T opts' pick s1 = Some y"
          using IH same by blast
        with True Inr show ?thesis
          by (subst run_loop.simps) simp
      qed
    qed
  qed
  with assms(2) show ?thesis by simp
qed

lemma run_loop_transfer_number:
  assumes "run_loop v T opts pick s = Some y"
    and "\<And>s. iteration_number v T c opts' pick s = iteration v T opts pick s"
  shows "run_loop_number v T c opts' pick s = Some y"
proof -
  let ?P = "\<lambda>v T opts pick s y.
              (\<forall>s. iteration_number v T c opts' pick s = iteration v T opts pick s) \<longrightarrow>
              run_loop_number v T c opts' pick s = Some y"
  have "?P v T opts pick s y"
  proof (rule run_loop.raw_induct[where P = ?P, OF _ assms(1)], intro impI)
    fix rl :: "impl \<Rightarrow> tasks \<Rightarrow> options \<Rightarrow> (nat list \<Rightarrow> nat) \<Rightarrow> state
                 \<Rightarrow> (outcome \<times> state) option"
    fix v T opts pick s y
    assume IH: "\<And>v T opts pick s y. rl v T opts pick s = Some y \<Longrightarrow> ?P v T opts pick s y"
    assume eq: "(if queue s \<noteq> [] \<and> \<not> failed s
      then case iteration v T opts pick s of
           Inl (e, s') \<Rightarrow> Some (TaskError e, s')
           | Inr s' \<Rightarrow> rl v T opts pick s'
      else Some (finish s, s)) = Some y"
    assume same: "\<forall>s. iteration_number v T c opts' pick s = iteration v T opts pick s"
    show "run_loop_number v T c opts' pick s = Some y"
    proof (cases "queue s \<noteq> [] \<and> \<not> failed s")
      case False
      with eq show ?thesis by (subst run_loop_number.simps) auto
    next
      case True
      show ?thesis
      proof (cases "iteration v T opts pick s")
        case (Inl p)
        with eq True same show ?thesis
          by (subst run_loop_number.simps) (simp split: prod.splits)
      next
        case (Inr s1)
        with eq True have "rl v T opts pick s1 = Some y" by simp
        then have "run_loop_number v T c opts' pick s1 = Some y"
          using IH same by blast
        with True Inr same show ?thesis
          by (subst run_loop_number.simps) simp
      qed
    qed
  qed
  with assms(2) show ?thesis by simp
qed

lemma asyncBatch_number_eq:
  assumes same: "\<And>s. iteration_number v T c opts pick s = iteration v T opts' pick s"
  shows "asyncBatch_number v T c opts pick = asyncBatch v T opts' pick"
proof (cases "run_loop_number v T c opts pick (init T)")
  case (Some y)
  from run_loop_number_transfer[OF Some same] Some show ?thesis
    by (simp add: asyncBatch_number_def asyncBatch_def)
next
  case None
  show ?thesis
  proof (cases "run_loop v T opts' pick (init T)")
    case (Some y)
    from run_loop_transfer_number[OF Some same] None show ?thesis by simp
  next
    case n2: None
    with None show ?thesis by (simp add: asyncBatch_number_def asyncBatch_def)
  qed
qed

text \<open>
  A run with a finite number \<open>c\<close> as its concurrency is the run with the integer
  \<open>\<lceil>c\<rceil>\<close>, the least integer that is not below \<open>c\<close>. At an integer the two layers
  of the model are one.
\<close>

lemma asyncBatch_number_Finite:
  "asyncBatch_number v T (Finite c) opts pick
     = asyncBatch v T (opts\<lparr>concurrency := Some \<lceil>c\<rceil>\<rparr>) pick"
  by (rule asyncBatch_number_eq) (rule iteration_number_Finite)

lemma asyncBatch_number_of_int:
  "asyncBatch_number v T (Finite (of_int (concurrency_of opts))) opts pick
     = asyncBatch v T opts pick"
  by (rule asyncBatch_number_eq)
     (simp add: iteration_number_def iteration_def fill_number_Finite)

lemma asyncBatch_number_empty:
  "asyncBatch_number v [] c opts pick = asyncBatch v [] opts' pick"
  by (simp add: asyncBatch_number_def asyncBatch_def run_loop_number.simps run_loop.simps
        init_def)

lemma run_loop_number_stuck:
  assumes "run_loop_number v T c opts pick s = Some y"
  shows "\<not> (at_most_zero c \<and> inProgress s = [] \<and> queue s \<noteq> [] \<and> \<not> failed s)"
proof (rule run_loop_number.raw_induct[OF _ assms])
  fix rl :: "impl \<Rightarrow> tasks \<Rightarrow> number \<Rightarrow> options \<Rightarrow> (nat list \<Rightarrow> nat) \<Rightarrow> state
               \<Rightarrow> (outcome \<times> state) option"
  fix v T c opts pick s y
  assume IH: "\<And>v T c opts pick s y. rl v T c opts pick s = Some y \<Longrightarrow>
     \<not> (at_most_zero c \<and> inProgress s = [] \<and> queue s \<noteq> [] \<and> \<not> failed s)"
  assume eq: "(if queue s \<noteq> [] \<and> \<not> failed s
      then case iteration_number v T c opts pick s of
           Inl (e, s') \<Rightarrow> Some (TaskError e, s')
           | Inr s' \<Rightarrow> rl v T c opts pick s'
      else Some (finish s, s)) = Some y"
  show "\<not> (at_most_zero c \<and> inProgress s = [] \<and> queue s \<noteq> [] \<and> \<not> failed s)"
  proof
    assume a: "at_most_zero c \<and> inProgress s = [] \<and> queue s \<noteq> [] \<and> \<not> failed s"
    then have "iteration_number v T c opts pick s = Inr s"
      by (simp add: iteration_number_def fill_number_at_most_zero)
    with a eq have "rl v T c opts pick s = Some y" by simp
    from IH[OF this] a show False by simp
  qed
qed

lemma asyncBatch_number_stuck:
  assumes "at_most_zero c" and "T \<noteq> []"
  shows "asyncBatch_number v T c opts pick = None"
proof (cases "asyncBatch_number v T c opts pick")
  case None
  then show ?thesis .
next
  case (Some y)
  then have "run_loop_number v T c opts pick (init T) = Some y"
    by (simp add: asyncBatch_number_def)
  from run_loop_number_stuck[OF this] assms show ?thesis
    by (simp add: init_def)
qed

text \<open>
  C3, amended: \<open>concurrency\<close> is not validated, and for no value below one does the
  call raise a configuration error. With a value of at most zero and a non-empty task
  list the call raises no error at all. In every other case, a value above zero (such
  as 0.5) or an empty task list, the call does exactly what it does with concurrency 1:
  the same outcome, the same final state and the same trace.
\<close>

theorem concurrency_below_one_not_validated:
  assumes "below_one c"
  shows "(at_most_zero c \<and> T \<noteq> [] \<longrightarrow>
            (\<forall>e s. asyncBatch_number v T c opts pick \<noteq> Some (TaskError e, s))
            \<and> (\<forall>m s. asyncBatch_number v T c opts pick \<noteq> Some (AllFailed m, s)))
         \<and> (\<not> at_most_zero c \<or> T = [] \<longrightarrow>
              asyncBatch_number v T c opts pick
                = asyncBatch v T (opts\<lparr>concurrency := Some 1\<rparr>) pick)"
proof (intro conjI impI)
  assume a: "at_most_zero c \<and> T \<noteq> []"
  then have n: "asyncBatch_number v T c opts pick = None"
    by (simp add: asyncBatch_number_stuck)
  show "\<forall>e s. asyncBatch_number v T c opts pick \<noteq> Some (TaskError e, s)"
    using n by simp
  show "\<forall>m s. asyncBatch_number v T c opts pick \<noteq> Some (AllFailed m, s)"
    using n by simp
next
  assume b: "\<not> at_most_zero c \<or> T = []"
  show "asyncBatch_number v T c opts pick = asyncBatch v T (opts\<lparr>concurrency := Some 1\<rparr>) pick"
  proof (cases "T = []")
    case True
    then show ?thesis by (simp add: asyncBatch_number_empty)
  next
    case False
    with b assms obtain x where c: "c = Finite x" and x: "0 < x" "x < 1"
      by (cases c) auto
    then have "\<lceil>x\<rceil> = 1" by (simp add: ceiling_eq_iff)
    with c show ?thesis
      by (simp add: asyncBatch_number_Finite)
  qed
qed

theorem concurrency_below_one_not_validated_witness:
  "below_one (Finite (1 / 2)) \<and> \<not> at_most_zero (Finite (1 / 2))
   \<and> map_option fst
       (asyncBatch_number TS [Some (Resolves (Num 7)), Some (Resolves (Num 8))] (Finite (1 / 2))
          \<lparr>concurrency = None, failFast = None, onProgress = None\<rparr> fifo)
     = Some (Returned [Some (Num 7), Some (Num 8)])
   \<and> below_one (Finite 0) \<and> at_most_zero (Finite 0)
   \<and> [Some (Resolves (Num 7))] \<noteq> []
   \<and> (\<forall>e s. asyncBatch_number TS [Some (Resolves (Num 7))] (Finite 0)
               \<lparr>concurrency = None, failFast = None, onProgress = None\<rparr> fifo
             \<noteq> Some (TaskError e, s))
   \<and> (\<forall>m s. asyncBatch_number TS [Some (Resolves (Num 7))] (Finite 0)
               \<lparr>concurrency = None, failFast = None, onProgress = None\<rparr> fifo
             \<noteq> Some (AllFailed m, s))"
proof -
  let ?o = "\<lparr>concurrency = None, failFast = None, onProgress = None\<rparr>"
  have h1: "below_one (Finite (1 / 2))" and h2: "below_one (Finite 0)"
    and p1: "\<not> at_most_zero (Finite (1 / 2))" and p2: "at_most_zero (Finite 0)"
    by simp_all
  have one: "map_option fst
       (asyncBatch TS [Some (Resolves (Num 7)), Some (Resolves (Num 8))]
          \<lparr>concurrency = Some 1, failFast = None, onProgress = None\<rparr> fifo)
     = Some (Returned [Some (Num 7), Some (Num 8)])"
    by code_simp
  from concurrency_below_one_not_validated[OF h1,
         of "[Some (Resolves (Num 7)), Some (Resolves (Num 8))]" TS ?o fifo] p1
  have "asyncBatch_number TS [Some (Resolves (Num 7)), Some (Resolves (Num 8))] (Finite (1 / 2))
          ?o fifo
        = asyncBatch TS [Some (Resolves (Num 7)), Some (Resolves (Num 8))]
            \<lparr>concurrency = Some 1, failFast = None, onProgress = None\<rparr> fifo"
    by simp
  with one have a: "map_option fst
       (asyncBatch_number TS [Some (Resolves (Num 7)), Some (Resolves (Num 8))] (Finite (1 / 2))
          ?o fifo)
     = Some (Returned [Some (Num 7), Some (Num 8)])"
    by simp
  from concurrency_below_one_not_validated[OF h2, of "[Some (Resolves (Num 7))]" TS ?o fifo] p2
  have b: "(\<forall>e s. asyncBatch_number TS [Some (Resolves (Num 7))] (Finite 0) ?o fifo
                \<noteq> Some (TaskError e, s))
         \<and> (\<forall>m s. asyncBatch_number TS [Some (Resolves (Num 7))] (Finite 0) ?o fifo
                \<noteq> Some (AllFailed m, s))"
    by simp
  from a b h1 h2 p1 p2 show ?thesis by simp
qed

section \<open>The returned list\<close>

lemma outv_simps:
  "i < length T \<Longrightarrow> T ! i = Some (Resolves r) \<Longrightarrow> outv T i = r"
  "i < length T \<Longrightarrow> T ! i = Some (Rejects e) \<Longrightarrow> outv T i = toError e"
  "i < length T \<Longrightarrow> T ! i = Some (Throws e) \<Longrightarrow> outv T i = toError e"
  "i < length T \<Longrightarrow> T ! i = None \<Longrightarrow>
     outv T i = ErrorObj (''Task at index '' @ string_of_nat i @ '' is undefined'')"
  by (simp_all add: outv_def lookup_def)

lemma asyncBatch_Returned:
  assumes "asyncBatch v T opts pick = Some (Returned rs, s)"
  shows "rs = map (\<lambda>i. Some (outv T i)) [0..<length T]"
proof -
  from asyncBatch_cases[OF assms]
  have li: "LI T opts (length T) s" and f: "Returned rs = finish s" by auto
  from f have "rs = results s" by (simp add: finish_def split: if_splits)
  with LI_results[OF li] show ?thesis by simp
qed

text \<open>
  C4. Whenever a run returns a result list, the list is as long as the task list, the
  value of every task that resolved is at the index of that task, and when fail-fast is
  off the index of every task that failed (rejected, threw, or was undefined) holds its
  error, coerced to an \<open>Error\<close>.
\<close>

theorem returned_list_index_aligned:
  assumes "asyncBatch v T opts pick = Some (Returned rs, s)"
  shows "length rs = length T
     \<and> (\<forall>i r. i < length T \<and> T ! i = Some (Resolves r) \<longrightarrow> rs ! i = Some r)
     \<and> (\<forall>i e. \<not> failFast_of opts \<and> i < length T
               \<and> (T ! i = Some (Rejects e) \<or> T ! i = Some (Throws e))
            \<longrightarrow> rs ! i = Some (toError e))
     \<and> (\<forall>i. \<not> failFast_of opts \<and> i < length T \<and> T ! i = None
            \<longrightarrow> rs ! i = Some (ErrorObj (''Task at index '' @ string_of_nat i @ '' is undefined'')))"
  unfolding asyncBatch_Returned[OF assms]
  by (auto simp: outv_simps)

text \<open>A run that returns a mixed list: values at 0 and 2, an error at 1.\<close>

lemma mixed_run:
  "map_option fst (asyncBatch TS
      [Some (Resolves (Num 1)), Some (Rejects (Str ''X'')), Some (Resolves (Num 3))]
      \<lparr>concurrency = Some 2, failFast = Some False, onProgress = None\<rparr> lifo)
   = Some (Returned [Some (Num 1), Some (ErrorObj ''X''), Some (Num 3)])"
  by code_simp

theorem returned_list_index_aligned_witness:
  "map_option fst (asyncBatch TS
      [Some (Resolves (Num 1)), Some (Rejects (Str ''X'')), Some (Resolves (Num 3))]
      \<lparr>concurrency = Some 2, failFast = Some False, onProgress = None\<rparr> lifo)
   = Some (Returned [Some (Num 1), Some (ErrorObj ''X''), Some (Num 3)])
   \<and> length [Some (Num 1), Some (ErrorObj ''X''), Some (Num 3)]
       = length [Some (Resolves (Num 1)), Some (Rejects (Str ''X'')), Some (Resolves (Num 3))]
   \<and> [Some (Num 1), Some (ErrorObj ''X''), Some (Num 3)] ! 2 = Some (Num 3)
   \<and> [Some (Num 1), Some (ErrorObj ''X''), Some (Num 3)] ! 1 = Some (toError (Str ''X''))"
proof -
  let ?T = "[Some (Resolves (Num 1)), Some (Rejects (Str ''X'')), Some (Resolves (Num 3))]"
  let ?o = "\<lparr>concurrency = Some 2, failFast = Some False, onProgress = None\<rparr>"
  let ?rs = "[Some (Num 1), Some (ErrorObj ''X''), Some (Num 3)]"
  obtain s where run: "asyncBatch TS ?T ?o lifo = Some (Returned ?rs, s)"
    using mixed_run by (cases "asyncBatch TS ?T ?o lifo") auto
  from returned_list_index_aligned[OF run]
  have "length ?rs = length ?T"
    and "\<forall>i r. i < length ?T \<and> ?T ! i = Some (Resolves r) \<longrightarrow> ?rs ! i = Some r"
    and "\<forall>i e. \<not> failFast_of ?o \<and> i < length ?T
               \<and> (?T ! i = Some (Rejects e) \<or> ?T ! i = Some (Throws e))
            \<longrightarrow> ?rs ! i = Some (toError e)"
    by blast+
  then have "length ?rs = length ?T" and "?rs ! 2 = Some (Num 3)"
    and "?rs ! 1 = Some (toError (Str ''X''))"
    by (simp_all add: failFast_of_def toError_def)
  with mixed_run show ?thesis by blast
qed

section \<open>Runs that take the same steps\<close>

text \<open>
  Two runs whose loop bodies agree on every state that satisfies an invariant of the
  first end the same way, or both never settle.
\<close>

lemma run_loop_transfer:
  assumes "run_loop v T opts pick s = Some y" and "I s"
    and "\<And>s. I s \<Longrightarrow> iteration v T opts pick s = iteration v' T' opts' pick' s"
    and "\<And>s s1. I s \<Longrightarrow> iteration v T opts pick s = Inr s1 \<Longrightarrow> I s1"
  shows "run_loop v' T' opts' pick' s = Some y"
proof -
  let ?P = "\<lambda>v T opts pick s y. I s \<longrightarrow>
              (\<forall>s. I s \<longrightarrow> iteration v T opts pick s = iteration v' T' opts' pick' s) \<longrightarrow>
              (\<forall>s s1. I s \<longrightarrow> iteration v T opts pick s = Inr s1 \<longrightarrow> I s1) \<longrightarrow>
              run_loop v' T' opts' pick' s = Some y"
  have "?P v T opts pick s y"
  proof (rule run_loop.raw_induct[where P = ?P, OF _ assms(1)], intro impI)
    fix rl :: "impl \<Rightarrow> tasks \<Rightarrow> options \<Rightarrow> (nat list \<Rightarrow> nat) \<Rightarrow> state \<Rightarrow> (outcome \<times> state) option"
    fix v T opts pick s y
    assume IH: "\<And>v T opts pick s y. rl v T opts pick s = Some y \<Longrightarrow> ?P v T opts pick s y"
    assume eq: "(if queue s \<noteq> [] \<and> \<not> failed s
      then case iteration v T opts pick s of
           Inl (e, s') \<Rightarrow> Some (TaskError e, s')
           | Inr s' \<Rightarrow> rl v T opts pick s'
      else Some (finish s, s)) = Some y"
    assume I: "I s"
    assume same: "\<forall>s. I s \<longrightarrow> iteration v T opts pick s = iteration v' T' opts' pick' s"
    assume step: "\<forall>s s1. I s \<longrightarrow> iteration v T opts pick s = Inr s1 \<longrightarrow> I s1"
    have it: "iteration v' T' opts' pick' s = iteration v T opts pick s"
      using same I by simp
    show "run_loop v' T' opts' pick' s = Some y"
    proof (cases "queue s \<noteq> [] \<and> \<not> failed s")
      case False
      with eq show ?thesis by (subst run_loop.simps) auto
    next
      case True
      show ?thesis
      proof (cases "iteration v T opts pick s")
        case (Inl p)
        with eq True it show ?thesis
          by (subst run_loop.simps) (simp split: prod.splits)
      next
        case (Inr s1)
        with eq True have "rl v T opts pick s1 = Some y" by simp
        moreover have "I s1" using step I Inr by blast
        ultimately have "run_loop v' T' opts' pick' s1 = Some y"
          using IH same step by blast
        with True it Inr show ?thesis
          by (subst run_loop.simps) simp
      qed
    qed
  qed
  with assms(2-4) show ?thesis by simp
qed

lemma run_loop_cong:
  assumes "I s"
    and same: "\<And>s. I s \<Longrightarrow> iteration v T opts pick s = iteration v' T' opts' pick' s"
    and step: "\<And>s s1. I s \<Longrightarrow> iteration v T opts pick s = Inr s1 \<Longrightarrow> I s1"
  shows "run_loop v T opts pick s = run_loop v' T' opts' pick' s"
proof (cases "run_loop v T opts pick s")
  case (Some y)
  from run_loop_transfer[where I = I, OF Some assms(1) same step] Some
  show ?thesis by simp
next
  case None
  show ?thesis
  proof (cases "run_loop v' T' opts' pick' s")
    case None
    with \<open>run_loop v T opts pick s = None\<close> show ?thesis by simp
  next
    case (Some y)
    have "run_loop v T opts pick s = Some y"
    proof (rule run_loop_transfer[where I = I, OF Some assms(1)])
      show "iteration v' T' opts' pick' s = iteration v T opts pick s" if "I s" for s
        using same[OF that] by simp
      show "I s1" if "I s" "iteration v' T' opts' pick' s = Inr s1" for s s1
        using step[OF that(1)] same[OF that(1)] that(2) by simp
    qed
    with None show ?thesis by simp
  qed
qed

section \<open>The two implementations\<close>

lemma call_onProgress_impl: "call_onProgress TS opts c n s = call_onProgress JS opts c n s"
  by (simp add: call_onProgress_def split: option.splits)

lemma finally_block_impl: "finally_block TS opts n i s = finally_block JS opts n i s"
  by (simp add: finally_block_def call_onProgress_impl Let_def)

lemma processTask_impl: "processTask TS T opts i s = processTask JS T opts i s"
  by (simp add: processTask_def finally_block_impl Let_def split: option.splits task.splits)

lemma resume_impl: "resume TS T opts i s = resume JS T opts i s"
  by (simp add: resume_def finally_block_impl split: option.splits task.splits)

lemma dispatch_all_impl: "dispatch_all TS T opts js s = dispatch_all JS T opts js s"
  by (induction js arbitrary: s) (simp_all add: processTask_impl)

lemma settle_all_impl: "settle_all TS T opts pick ps s = settle_all JS T opts pick ps s"
proof (induction "length ps" arbitrary: ps s)
  case 0
  then show ?case by (simp add: settle_all.simps)
next
  case (Suc n)
  then have ne: "ps \<noteq> []" by auto
  define i where "i = ps ! (pick ps mod length ps)"
  have "i \<in> set ps" using ne by (simp add: i_def)
  then have "n = length (remove1 i ps)" using Suc.hyps(2) by (simp add: length_remove1)
  from Suc.hyps(1)[OF this]
  have "settle_all TS T opts pick (remove1 i ps) (resume JS T opts i s)
      = settle_all JS T opts pick (remove1 i ps) (resume JS T opts i s)" .
  then show ?case
    using ne by (subst (1 2) settle_all.simps) (simp add: Let_def i_def resume_impl)
qed

lemma iteration_impl: "iteration TS T opts pick s = iteration JS T opts pick s"
  by (simp add: iteration_def dispatch_all_impl settle_all_impl Let_def split: prod.splits)

text \<open>
  C9. The TypeScript and the JavaScript implementation compute the same function: for
  every task list, options and settlement order they end the same way (the same result
  list or the same error), after the same events, or both never settle.
\<close>

theorem typescript_javascript_agree:
  "asyncBatch TS T opts pick = asyncBatch JS T opts pick"
  unfolding asyncBatch_def
  by (rule run_loop_cong[where I = "\<lambda>s. True"]) (simp_all add: iteration_impl)

section \<open>Continue-on-error runs\<close>

lemma fill_failed [simp]: "failed (fill c s) = failed s"
proof (induction c s rule: fill.induct)
  case (1 c s)
  show ?case
  proof (cases "int (length (inProgress s)) < c \<and> queue s \<noteq> [] \<and> \<not> failed s")
    case True
    with 1 show ?thesis by (subst fill.simps) simp
  next
    case False
    then show ?thesis by (subst fill.simps) auto
  qed
qed

lemma resume_nofail:
  "\<not> failFast_of opts \<Longrightarrow> \<not> failed s \<Longrightarrow> \<not> failed (resume v T opts i s)"
  by (simp add: resume_def finally_block_eq catch_block_def split: option.splits task.splits)

lemma processTask_nofail:
  "\<not> failFast_of opts \<Longrightarrow> \<not> failed s \<Longrightarrow> \<not> failed (fst (processTask v T opts i s))"
  by (simp add: processTask_def finally_block_eq catch_block_def Let_def
           split: option.splits task.splits)

lemma dispatch_all_nofail:
  "\<not> failFast_of opts \<Longrightarrow> \<not> failed s \<Longrightarrow> \<not> failed (fst (dispatch_all v T opts js s))"
proof (induction js arbitrary: s)
  case Nil
  then show ?case by simp
next
  case (Cons i js)
  show ?case
    unfolding fst_dispatch_all_Cons
    by (rule Cons.IH[OF Cons.prems(1) processTask_nofail[OF Cons.prems]])
qed

lemma settle_all_nofail:
  "\<not> failFast_of opts \<Longrightarrow> \<not> failed s \<Longrightarrow> \<not> failed (settle_all v T opts pick ps s)"
proof (induction v T opts pick ps s rule: settle_all.induct)
  case (1 v T opts pick ps s)
  show ?case
  proof (cases "ps = []")
    case True
    with 1 show ?thesis by (simp add: settle_all.simps)
  next
    case False
    with 1 show ?thesis
      by (subst settle_all.simps) (simp add: Let_def resume_nofail)
  qed
qed

lemma wave_nofail:
  assumes "\<not> failFast_of opts" and "\<not> failed s"
  shows "\<not> failed (wave v T opts pick s)"
proof -
  obtain s2 ps where d: "dispatch_all v T opts (inProgress s) s = (s2, ps)"
    by (cases "dispatch_all v T opts (inProgress s) s")
  have "\<not> failed s2"
    using dispatch_all_nofail[OF assms, of v T "inProgress s"] d by simp
  then show ?thesis
    using d assms(1) by (simp add: wave_def settle_all_nofail)
qed

lemma iteration_nofail:
  assumes "\<not> failFast_of opts" and "\<not> failed s"
  shows "\<exists>s1. iteration v T opts pick s = Inr s1 \<and> \<not> failed s1"
  using assms wave_nofail[of opts "fill (concurrency_of opts) s" v T pick]
  by (simp add: iteration_wave Let_def)

lemma asyncBatch_nofail:
  assumes "\<not> failFast_of opts" and "asyncBatch v T opts pick = Some (out, s)"
  shows "\<not> failed s"
proof -
  let ?I = "\<lambda>s. \<not> failed s"
  have "\<exists>s0. ?I s0 \<and>
           ((queue s0 = [] \<or> failed s0) \<and> out = finish s0 \<and> s = s0
            \<or> queue s0 \<noteq> [] \<and> \<not> failed s0
               \<and> (\<exists>e. iteration v T opts pick s0 = Inl (e, s) \<and> out = TaskError e))"
  proof (rule run_loop_exit[where I = ?I])
    show "run_loop v T opts pick (init T) = Some (out, s)"
      using assms(2) by (simp add: asyncBatch_def)
    show "?I (init T)" by (simp add: init_def)
    show "?I s1" if "?I s" "iteration v T opts pick s = Inr s1" for s s1
      using iteration_nofail[OF assms(1) that(1), of v T pick] that(2) by simp
  qed
  then obtain s0 where s0: "\<not> failed s0"
    and c: "(queue s0 = [] \<or> failed s0) \<and> out = finish s0 \<and> s = s0
            \<or> queue s0 \<noteq> [] \<and> \<not> failed s0
               \<and> (\<exists>e. iteration v T opts pick s0 = Inl (e, s) \<and> out = TaskError e)"
    by blast
  from iteration_nofail[OF assms(1) s0, of v T pick] c s0 show ?thesis
    by auto
qed

lemma asyncBatch_continue_ends:
  assumes "\<not> failFast_of opts" and "asyncBatch v T opts pick = Some (out, s)"
  shows "out = finish s \<and> LI T opts (length T) s"
  using asyncBatch_nofail[OF assms] asyncBatch_cases[OF assms(2)] by auto

lemma asyncBatch_continue:
  assumes "\<not> failFast_of opts" and "1 \<le> concurrency_of opts"
  shows "\<exists>s. asyncBatch v T opts pick = Some (finish s, s) \<and> LI T opts (length T) s"
proof -
  obtain out s where run: "asyncBatch v T opts pick = Some (out, s)"
    using asyncBatch_terminates[OF assms(2), of v T pick] by auto
  with asyncBatch_continue_ends[OF assms(1) run] show ?thesis by auto
qed

lemma failure_outv:
  assumes "i < length T" and "failure i (T ! i) \<noteq> None"
  shows "failure i (T ! i) = Some (outv T i) \<and> isError (outv T i)"
proof (cases "T ! i")
  case None
  with assms(1) show ?thesis by (simp add: outv_def lookup_def)
next
  case (Some t)
  with assms show ?thesis by (cases t) (simp_all add: outv_def lookup_def)
qed

lemma finish_all_errors:
  assumes "results s = map (\<lambda>i. Some (f i)) [0..<n]" and "\<forall>i<n. isError (f i)"
  shows "finish s = AllFailed (''All tasks failed to execute: ''
                       @ join '', '' (map (\<lambda>i. message (Some (f i))) [0..<n]))"
proof -
  have "allFailed (results s)"
    using assms by (simp add: allFailed_def list_all_iff)
  then show ?thesis
    using assms(1) by (simp add: finish_def comp_def)
qed

lemma failFast_failure_throws:
  assumes "failFast_of opts" and "i < length T" and "failure i (T ! i) \<noteq> None"
    and "asyncBatch v T opts pick = Some (out, s)"
  shows "\<exists>e. out = TaskError e"
proof -
  have "\<not> LI T opts (length T) s"
  proof
    assume "LI T opts (length T) s"
    then have "\<forall>j\<in>{..<length T}. failure j (lookup T j) = None"
      using assms(1) by (simp add: LI_def Wcore_def)
    with assms(2) have "failure i (lookup T i) = None" by simp
    with assms(2,3) show False by (simp add: lookup_def)
  qed
  with asyncBatch_cases[OF assms(4)] show ?thesis by auto
qed

text \<open>
  With fail-fast off, when every task fails (rejects, throws, or is undefined), a run
  that ends throws the aggregate error: its message is the prefix followed by the
  messages of the tasks' errors in index order, joined by a comma and a space. With a
  concurrency of at least one the run does end. A run that throws the aggregate error
  never set the abort flag \<open>failed\<close>, and a fail-fast run in which some task fails, when
  it ends, throws the error of a task.
\<close>

lemma continue_mode_all_failed:
  assumes "\<not> failFast_of opts" and "\<forall>i<length T. failure i (T ! i) \<noteq> None"
  shows "(\<forall>out s. asyncBatch v T opts pick = Some (out, s) \<longrightarrow>
            out = AllFailed (''All tasks failed to execute: ''
                      @ join '', '' (map (\<lambda>i. message (failure i (T ! i))) [0..<length T])))
         \<and> (1 \<le> concurrency_of opts \<longrightarrow> (\<exists>out s. asyncBatch v T opts pick = Some (out, s)))
         \<and> (\<forall>v' T' opts' pick' m s'.
               asyncBatch v' T' opts' pick' = Some (AllFailed m, s') \<longrightarrow> \<not> failed s')
         \<and> (\<forall>v' T' opts' pick' out s'.
               failFast_of opts' \<and> (\<exists>i<length T'. failure i (T' ! i) \<noteq> None)
               \<and> asyncBatch v' T' opts' pick' = Some (out, s')
               \<longrightarrow> (\<exists>e. out = TaskError e))"
proof (intro conjI allI impI)
  fix out s
  assume run: "asyncBatch v T opts pick = Some (out, s)"
  from asyncBatch_continue_ends[OF assms(1) run]
  have out: "out = finish s" and li: "LI T opts (length T) s" by simp_all
  have "finish s = AllFailed (''All tasks failed to execute: ''
                       @ join '', '' (map (\<lambda>i. message (Some (outv T i))) [0..<length T]))"
    using LI_results[OF li] assms(2) failure_outv[of _ T]
    by (intro finish_all_errors) auto
  moreover have "map (\<lambda>i. message (Some (outv T i))) [0..<length T]
               = map (\<lambda>i. message (failure i (T ! i))) [0..<length T]"
    using assms(2) failure_outv[of _ T] by (intro map_cong) auto
  ultimately show "out = AllFailed (''All tasks failed to execute: ''
                      @ join '', '' (map (\<lambda>i. message (failure i (T ! i))) [0..<length T]))"
    using out by simp
next
  assume "1 \<le> concurrency_of opts"
  from asyncBatch_terminates[OF this, of v T pick]
  show "\<exists>out s. asyncBatch v T opts pick = Some (out, s)" by auto
next
  fix v' T' opts' pick' m s'
  assume "asyncBatch v' T' opts' pick' = Some (AllFailed m, s')"
  from asyncBatch_cases[OF this] show "\<not> failed s'"
    by (auto simp: LI_def Wcore_def)
next
  fix v' T' opts' pick' out s'
  assume "failFast_of opts' \<and> (\<exists>i<length T'. failure i (T' ! i) \<noteq> None)
               \<and> asyncBatch v' T' opts' pick' = Some (out, s')"
  then show "\<exists>e. out = TaskError e"
    using failFast_failure_throws by blast
qed

text \<open>The three rejecting tasks of the spec's example, with the default options.\<close>

lemma continue_mode_all_failed_example:
  "\<exists>s. asyncBatch TS
          [Some (Rejects (ErrorObj ''Error 1'')), Some (Rejects (ErrorObj ''Error 2'')),
           Some (Rejects (ErrorObj ''Error 3''))]
          \<lparr>concurrency = None, failFast = None, onProgress = None\<rparr> fifo
        = Some (AllFailed ''All tasks failed to execute: Error 1, Error 2, Error 3'', s)"
proof -
  let ?T = "[Some (Rejects (ErrorObj ''Error 1'')), Some (Rejects (ErrorObj ''Error 2'')),
              Some (Rejects (ErrorObj ''Error 3''))]"
  let ?o = "\<lparr>concurrency = None, failFast = None, onProgress = None\<rparr>"
  have h: "\<not> failFast_of ?o" and c: "1 \<le> concurrency_of ?o"
    by (simp_all add: failFast_of_def concurrency_of_def)
  have f: "\<forall>i<length ?T. failure i (?T ! i) \<noteq> None"
    by (simp add: less_Suc_eq)
  have m: "map (\<lambda>i. message (failure i (?T ! i))) [0..<length ?T]
             = [''Error 1'', ''Error 2'', ''Error 3'']"
    by (simp add: upt_rec)
  note inst = continue_mode_all_failed[OF h f, of TS fifo]
  from inst c obtain out s where run: "asyncBatch TS ?T ?o fifo = Some (out, s)" by blast
  with inst have "out = AllFailed (''All tasks failed to execute: ''
                      @ join '', '' (map (\<lambda>i. message (failure i (?T ! i))) [0..<length ?T]))"
    by blast
  then have "out = AllFailed ''All tasks failed to execute: Error 1, Error 2, Error 3''"
    unfolding m by simp
  with run show ?thesis by blast
qed

text \<open>
  C5. The first half of the claim holds: with fail-fast off and every task failing the
  run raises the aggregate error, with that message. The second half, that the
  aggregate error is raised only when not in fail-fast mode, is what the comment of
  line 75 says too (``If not in failFast mode, throw if all tasks failed''); the test of
  line 76 does not look at \<open>failFast\<close>. With \<open>failFast = true\<close> and one task that
  resolves with an instance of \<open>Error\<close>, no task fails, the abort flag stays unset, and
  the call throws the aggregate error, in both implementations.
\<close>

theorem failFast_mode_raises_aggregate_error:
  "failFast_of \<lparr>concurrency = None, failFast = Some True, onProgress = None\<rparr>
   \<and> map_option fst
       (asyncBatch TS [Some (Resolves (ErrorObj ''a''))]
          \<lparr>concurrency = None, failFast = Some True, onProgress = None\<rparr> fifo)
     = Some (AllFailed ''All tasks failed to execute: a'')
   \<and> map_option fst
       (asyncBatch JS [Some (Resolves (ErrorObj ''a''))]
          \<lparr>concurrency = None, failFast = Some True, onProgress = None\<rparr> fifo)
     = Some (AllFailed ''All tasks failed to execute: a'')"
proof (intro conjI)
  show "failFast_of \<lparr>concurrency = None, failFast = Some True, onProgress = None\<rparr>"
    by (simp add: failFast_of_def)
  show "map_option fst
       (asyncBatch TS [Some (Resolves (ErrorObj ''a''))]
          \<lparr>concurrency = None, failFast = Some True, onProgress = None\<rparr> fifo)
     = Some (AllFailed ''All tasks failed to execute: a'')"
    by code_simp
  show "map_option fst
       (asyncBatch JS [Some (Resolves (ErrorObj ''a''))]
          \<lparr>concurrency = None, failFast = Some True, onProgress = None\<rparr> fifo)
     = Some (AllFailed ''All tasks failed to execute: a'')"
    by code_simp
qed

section \<open>Progress calls\<close>

lemma progress_calls_append [simp]:
  "progress_calls (xs @ ys) = progress_calls xs @ progress_calls ys"
  by (induction xs) (auto split: event.splits)

lemma progress_calls_filter_is_sp [simp]: "progress_calls (filter is_sp tr) = progress_calls tr"
  by (induction tr) (auto split: event.splits)

lemma progress_calls_expected_sp:
  assumes "onProgress opts \<noteq> None"
  shows "progress_calls (expected_sp opts n order) = map (\<lambda>c. (c, n)) [1..<Suc (length order)]"
proof (induction order rule: rev_induct)
  case Nil
  then show ?case by (simp add: expected_sp_def)
next
  case (snoc i order)
  then show ?case
    using assms by (simp add: expected_sp_snoc progress_event_def)
qed

lemma expected_sp_supplied:
  assumes "onProgress opts \<noteq> None"
  shows "expected_sp opts n order
       = concat (map (\<lambda>(j, i). [Settled i, Progress (Suc j) n]) (enumerate 0 order))"
proof -
  have "progress_event opts c n = [Progress c n]" for c
    using assms by (simp add: progress_event_def)
  then show ?thesis by (simp add: expected_sp_def)
qed

text \<open>
  C6. With fail-fast off and a callback supplied, in a run that ends \<open>onProgress\<close> has
  been called exactly \<open>tasks.length\<close> times, with the first argument 1, 2, ...,
  \<open>tasks.length\<close> in this order and the second always \<open>tasks.length\<close>. Every task
  has settled exactly once, and the settle and progress events of the trace alternate:
  the k-th settlement is followed by the k-th call, at once, with no other event in
  between. With a concurrency of at least one the run does end.
\<close>

theorem onProgress_once_per_settled_task:
  assumes "\<not> failFast_of opts" and "onProgress opts \<noteq> None"
  shows "(\<forall>out s. asyncBatch v T opts pick = Some (out, s) \<longrightarrow>
            progress_calls (trace s) = map (\<lambda>c. (c, length T)) [1..<Suc (length T)]
            \<and> distinct (settled_of (trace s)) \<and> set (settled_of (trace s)) = {..<length T}
            \<and> filter is_sp (trace s)
                = concat (map (\<lambda>(j, i). [Settled i, Progress (Suc j) (length T)])
                            (enumerate 0 (settled_of (trace s))))
            \<and> prompt (trace s))
         \<and> (1 \<le> concurrency_of opts \<longrightarrow> (\<exists>out s. asyncBatch v T opts pick = Some (out, s)))"
proof (intro conjI allI impI)
  fix out s
  assume run: "asyncBatch v T opts pick = Some (out, s)"
  from asyncBatch_continue_ends[OF assms(1) run]
  have li: "LI T opts (length T) s" by simp
  from li show d: "distinct (settled_of (trace s))"
    and st: "set (settled_of (trace s)) = {..<length T}"
    by (simp_all add: LI_def Wcore_def)
  from li have sp: "filter is_sp (trace s) = expected_sp opts (length T) (settled_of (trace s))"
    by (simp add: LI_def Wcore_def)
  from li assms(2) show "prompt (trace s)"
    by (simp add: LI_def Wcore_def)
  have len: "length (settled_of (trace s)) = length T"
    using distinct_card[OF d] unfolding st by simp
  have "progress_calls (trace s) = progress_calls (filter is_sp (trace s))" by simp
  also have "\<dots> = map (\<lambda>c. (c, length T)) [1..<Suc (length T)]"
    unfolding sp progress_calls_expected_sp[OF assms(2)] len ..
  finally show "progress_calls (trace s) = map (\<lambda>c. (c, length T)) [1..<Suc (length T)]" .
  show "filter is_sp (trace s)
                = concat (map (\<lambda>(j, i). [Settled i, Progress (Suc j) (length T)])
                            (enumerate 0 (settled_of (trace s))))"
    using sp expected_sp_supplied[OF assms(2)] by simp
next
  assume "1 \<le> concurrency_of opts"
  from asyncBatch_terminates[OF this, of v T pick]
  show "\<exists>out s. asyncBatch v T opts pick = Some (out, s)" by auto
qed

theorem onProgress_once_per_settled_task_witness:
  "\<not> failFast_of \<lparr>concurrency = Some 2, failFast = None, onProgress = Some Recorder\<rparr>
   \<and> onProgress \<lparr>concurrency = Some 2, failFast = None, onProgress = Some Recorder\<rparr> \<noteq> None
   \<and> 1 \<le> concurrency_of \<lparr>concurrency = Some 2, failFast = None, onProgress = Some Recorder\<rparr>
   \<and> (\<exists>out s. asyncBatch JS
                 [Some (Resolves (Num 1)), Some (Rejects (Str ''X'')), Some (Throws Undefined)]
                 \<lparr>concurrency = Some 2, failFast = None, onProgress = Some Recorder\<rparr> lifo
               = Some (out, s)
             \<and> progress_calls (trace s) = [(1, 3), (2, 3), (3, 3)])"
proof -
  let ?T = "[Some (Resolves (Num 1)), Some (Rejects (Str ''X'')), Some (Throws Undefined)]"
  let ?o = "\<lparr>concurrency = Some 2, failFast = None, onProgress = Some Recorder\<rparr>"
  have h: "\<not> failFast_of ?o" "onProgress ?o \<noteq> None" and c: "1 \<le> concurrency_of ?o"
    by (simp_all add: failFast_of_def concurrency_of_def)
  have m: "map (\<lambda>c. (c, length ?T)) [1..<Suc (length ?T)] = [(1, 3), (2, 3), (3, 3)]"
    by (simp add: upt_rec)
  note inst = onProgress_once_per_settled_task[OF h, of JS ?T lifo]
  from inst c obtain out s where run: "asyncBatch JS ?T ?o lifo = Some (out, s)" by blast
  with inst have "progress_calls (trace s) = map (\<lambda>c. (c, length ?T)) [1..<Suc (length ?T)]"
    by blast
  then have "progress_calls (trace s) = [(1, 3), (2, 3), (3, 3)]"
    unfolding m .
  with run have "\<exists>out s. asyncBatch JS ?T ?o lifo = Some (out, s)
           \<and> progress_calls (trace s) = [(1, 3), (2, 3), (3, 3)]"
    by blast
  with h c show ?thesis by simp
qed

section \<open>Resolving with an Error\<close>

lemma lookup_as_rejection: "lookup (map as_rejection T) i = as_rejection (lookup T i)"
  by (simp add: lookup_def)

lemma processTask_as_rejection:
  "processTask v (map as_rejection T) opts i s = processTask v T opts i s"
proof (cases "lookup T i")
  case None
  then show ?thesis by (simp add: processTask_def lookup_as_rejection)
next
  case (Some t)
  then show ?thesis
    by (cases "(Some t)" rule: as_rejection.cases)
       (simp_all add: processTask_def lookup_as_rejection)
qed

lemma resume_as_rejection:
  assumes "\<not> failFast_of opts" and "\<not> failed s"
  shows "resume v (map as_rejection T) opts i s = resume v T opts i s"
proof (cases "lookup T i")
  case None
  then show ?thesis by (simp add: resume_def lookup_as_rejection)
next
  case (Some t)
  then show ?thesis
    using assms
    by (cases "(Some t)" rule: as_rejection.cases)
       (simp_all add: resume_def lookup_as_rejection catch_block_def)
qed

lemma dispatch_all_as_rejection:
  "dispatch_all v (map as_rejection T) opts js s = dispatch_all v T opts js s"
  by (induction js arbitrary: s) (simp_all add: processTask_as_rejection)

lemma settle_all_as_rejection:
  assumes "\<not> failFast_of opts" and "\<not> failed s"
  shows "settle_all v (map as_rejection T) opts pick ps s = settle_all v T opts pick ps s"
  using assms(2)
proof (induction "length ps" arbitrary: ps s)
  case 0
  then show ?case by (simp add: settle_all.simps)
next
  case (Suc n)
  then have ne: "ps \<noteq> []" by auto
  define i where "i = ps ! (pick ps mod length ps)"
  have "i \<in> set ps" using ne by (simp add: i_def)
  then have n: "n = length (remove1 i ps)" using Suc.hyps(2) by (simp add: length_remove1)
  have nf: "\<not> failed (resume v T opts i s)"
    using assms(1) Suc.prems by (rule resume_nofail)
  from Suc.hyps(1)[OF n nf]
  have "settle_all v (map as_rejection T) opts pick (remove1 i ps) (resume v T opts i s)
      = settle_all v T opts pick (remove1 i ps) (resume v T opts i s)" .
  then show ?case
    using ne resume_as_rejection[OF assms(1) Suc.prems, of v T i]
    by (subst (1 2) settle_all.simps) (simp add: Let_def i_def)
qed

lemma iteration_as_rejection:
  assumes "\<not> failFast_of opts" and "\<not> failed s"
  shows "iteration v (map as_rejection T) opts pick s = iteration v T opts pick s"
proof -
  let ?s1 = "fill (concurrency_of opts) s"
  obtain s2 ps where d: "dispatch_all v T opts (inProgress ?s1) ?s1 = (s2, ps)"
    by (cases "dispatch_all v T opts (inProgress ?s1) ?s1")
  have "\<not> failed s2"
    using dispatch_all_nofail[OF assms(1), of ?s1 v T "inProgress ?s1"] assms(2) d by simp
  then have "settle_all v (map as_rejection T) opts pick ps s2 = settle_all v T opts pick ps s2"
    using assms(1) by (intro settle_all_as_rejection)
  then have "wave v (map as_rejection T) opts pick ?s1 = wave v T opts pick ?s1"
    using d by (simp add: wave_def dispatch_all_as_rejection)
  then show ?thesis
    by (simp add: iteration_wave Let_def)
qed

lemma asyncBatch_as_rejection:
  assumes "\<not> failFast_of opts"
  shows "asyncBatch v (map as_rejection T) opts pick = asyncBatch v T opts pick"
proof -
  have "run_loop v (map as_rejection T) opts pick (init T) = run_loop v T opts pick (init T)"
  proof (rule run_loop_cong[where I = "\<lambda>s. \<not> failed s"])
    show "\<not> failed (init T)" by (simp add: init_def)
    show "iteration v (map as_rejection T) opts pick s = iteration v T opts pick s"
      if "\<not> failed s" for s
      using assms that by (rule iteration_as_rejection)
    show "\<not> failed s1"
      if "\<not> failed s" "iteration v (map as_rejection T) opts pick s = Inr s1" for s s1
      using iteration_nofail[OF assms that(1), of v "map as_rejection T" pick] that(2) by simp
  qed
  moreover have "init (map as_rejection T) = init T" by (simp add: init_def)
  ultimately show ?thesis by (simp add: asyncBatch_def)
qed

text \<open>
  C10. With fail-fast off, a task that resolves with an \<open>Error\<close> instance cannot be told
  from the task that rejects with it: replacing the one by the other, anywhere in the
  task list, changes nothing of the run (outcome, final state, events). In particular,
  when every task resolves with an \<open>Error\<close> instance, a run that ends throws the
  aggregate error over the messages of these values instead of returning them; with a
  concurrency of at least one the run does end.
\<close>

theorem resolved_error_counts_as_failure:
  assumes "\<not> failFast_of opts"
  shows "asyncBatch v (map as_rejection T) opts pick = asyncBatch v T opts pick
         \<and> (\<forall>out s. asyncBatch v (map (\<lambda>m. Some (Resolves (ErrorObj m))) ms) opts pick
                      = Some (out, s) \<longrightarrow>
                    out = AllFailed (''All tasks failed to execute: '' @ join '', '' ms))
         \<and> (1 \<le> concurrency_of opts \<longrightarrow>
              (\<exists>out s. asyncBatch v (map (\<lambda>m. Some (Resolves (ErrorObj m))) ms) opts pick
                         = Some (out, s)))"
proof (intro conjI allI impI)
  show "asyncBatch v (map as_rejection T) opts pick = asyncBatch v T opts pick"
    using assms by (rule asyncBatch_as_rejection)
next
  fix out s
  let ?T = "map (\<lambda>m. Some (Resolves (ErrorObj m))) ms"
  assume run: "asyncBatch v ?T opts pick = Some (out, s)"
  from asyncBatch_continue_ends[OF assms run]
  have out: "out = finish s" and li: "LI ?T opts (length ?T) s" by simp_all
  have o: "outv ?T i = ErrorObj (ms ! i)" if "i < length ms" for i
    using that by (simp add: outv_def lookup_def)
  have "results s = map (\<lambda>i. Some (ErrorObj (ms ! i))) [0..<length ms]"
    using LI_results[OF li] o by simp
  then have "finish s = AllFailed (''All tasks failed to execute: ''
                 @ join '', '' (map (\<lambda>i. message (Some (ErrorObj (ms ! i)))) [0..<length ms]))"
    by (intro finish_all_errors) simp_all
  moreover have "map (\<lambda>i. message (Some (ErrorObj (ms ! i)))) [0..<length ms] = ms"
    by (simp add: map_nth)
  ultimately show "out = AllFailed (''All tasks failed to execute: '' @ join '', '' ms)"
    using out by simp
next
  assume "1 \<le> concurrency_of opts"
  from asyncBatch_terminates[OF this]
  show "\<exists>out s. asyncBatch v (map (\<lambda>m. Some (Resolves (ErrorObj m))) ms) opts pick
                         = Some (out, s)" by auto
qed

theorem resolved_error_counts_as_failure_witness:
  "\<not> failFast_of \<lparr>concurrency = Some 1, failFast = Some False, onProgress = None\<rparr>
   \<and> 1 \<le> concurrency_of \<lparr>concurrency = Some 1, failFast = Some False, onProgress = None\<rparr>
   \<and> (\<exists>s. asyncBatch TS
             [Some (Resolves (ErrorObj ''boom'')), Some (Resolves (ErrorObj ''bang''))]
             \<lparr>concurrency = Some 1, failFast = Some False, onProgress = None\<rparr> fifo
           = Some (AllFailed ''All tasks failed to execute: boom, bang'', s))"
proof -
  let ?o = "\<lparr>concurrency = Some 1, failFast = Some False, onProgress = None\<rparr>"
  let ?T = "map (\<lambda>m. Some (Resolves (ErrorObj m))) [''boom'', ''bang'']"
  have h: "\<not> failFast_of ?o" and c: "1 \<le> concurrency_of ?o"
    by (simp_all add: failFast_of_def concurrency_of_def)
  note inst = resolved_error_counts_as_failure[OF h, of TS "[]" fifo "[''boom'', ''bang'']"]
  from inst c obtain out s where run: "asyncBatch TS ?T ?o fifo = Some (out, s)" by blast
  with inst have "out = AllFailed (''All tasks failed to execute: ''
                     @ join '', '' [''boom'', ''bang''])"
    by blast
  with run have "\<exists>s. asyncBatch TS
             [Some (Resolves (ErrorObj ''boom'')), Some (Resolves (ErrorObj ''bang''))] ?o fifo
           = Some (AllFailed ''All tasks failed to execute: boom, bang'', s)"
    by simp
  with h c show ?thesis by simp
qed

section \<open>Tasks executing at an instant\<close>

lemma run_after_append [simp]: "run_after r (xs @ ys) = run_after (run_after r xs) ys"
  by (induction xs arbitrary: r) simp_all

lemma wf_append [simp]: "wf c r (xs @ ys) = (wf c r xs \<and> wf c (run_after r xs) ys)"
  by (induction xs arbitrary: r) auto

lemma dispatched_of_append [simp]:
  "dispatched_of (xs @ ys) = dispatched_of xs @ dispatched_of ys"
  by (induction xs) (auto split: event.splits)

lemma admitted_of_append [simp]: "admitted_of (xs @ ys) = admitted_of xs @ admitted_of ys"
  by (induction xs) (auto split: event.splits)

lemma trace_Admit [simp]:
  "wf c [] (map Admit xs)" "run_after [] (map Admit xs) = []"
  "dispatched_of (map Admit xs) = []" "admitted_of (map Admit xs) = xs"
  by (induction xs) simp_all

lemma trace_progress_event [simp]:
  "wf c r (progress_event opts k n)" "run_after r (progress_event opts k n) = r"
  "dispatched_of (progress_event opts k n) = []" "admitted_of (progress_event opts k n) = []"
  by (simp_all add: progress_event_def)

lemma wf_bound:
  assumes "wf c r tr" and "int (length r) \<le> max 0 c"
  shows "int (length (run_after r tr)) \<le> max 0 c"
  using assms
proof (induction tr arbitrary: r)
  case Nil
  then show ?case by simp
next
  case (Cons e tr)
  show ?case
  proof (cases e)
    case (Settled i)
    have "length (removeAll i r) \<le> length r"
      by (simp add: length_removeAll_less_eq)
    with Cons.prems Settled have "int (length (removeAll i r)) \<le> max 0 c" by linarith
    with Cons Settled show ?thesis by simp
  qed (use Cons in auto)
qed

lemma wf_take: "wf c r tr \<Longrightarrow> wf c r (take k tr)"
  using wf_append[of c r "take k tr" "drop k tr"] by simp

lemma wf_executing_bound:
  assumes "wf c [] tr"
  shows "int (length (executing (take k tr))) \<le> max 0 c"
  unfolding executing_def using wf_take[OF assms, of k] by (intro wf_bound) simp_all

lemma wf_admit_idle:
  assumes "wf c [] tr" and "k < length tr" and "tr ! k = Admit i"
  shows "executing (take k tr) = []"
proof -
  have "tr = take k tr @ Admit i # drop (Suc k) tr"
    using assms(2,3) id_take_nth_drop by fastforce
  then have "wf c [] (take k tr @ Admit i # drop (Suc k) tr)"
    using assms(1) by simp
  then show ?thesis by (simp add: executing_def)
qed

lemma wf_dispatch_room:
  assumes "wf c [] tr" and "k < length tr" and "tr ! k = Dispatch i"
  shows "int (length (executing (take k tr))) < c"
proof -
  have "tr = take k tr @ Dispatch i # drop (Suc k) tr"
    using assms(2,3) id_take_nth_drop by fastforce
  then have "wf c [] (take k tr @ Dispatch i # drop (Suc k) tr)"
    using assms(1) by simp
  then show ?thesis by (simp add: executing_def)
qed

lemma resume_events:
  assumes "suspends T i"
  shows "\<exists>evs. trace (resume v T opts i s) = trace s @ evs
           \<and> (\<forall>r. wf c r evs) \<and> (\<forall>r. run_after r evs = removeAll i r)
           \<and> dispatched_of evs = [] \<and> admitted_of evs = []"
  using assms
  by (auto simp: resume_def suspends_def finally_block_eq catch_block_def
           split: option.splits task.splits)

lemma processTask_events:
  assumes "processTask v T opts i s = (s1, susp)"
  shows "\<exists>evs. trace s1 = trace s @ evs
           \<and> (\<forall>r. int (length r) < c \<longrightarrow> wf c r evs)
           \<and> (\<forall>r. i \<notin> set r \<longrightarrow> run_after r evs = (if susp then r @ [i] else r))
           \<and> (dispatched_of evs = [] \<or> dispatched_of evs = [i])
           \<and> admitted_of evs = [] \<and> (susp \<longrightarrow> suspends T i)"
  using assms
  by (auto simp: processTask_def suspends_def finally_block_eq catch_block_def Let_def
           split: option.splits task.splits if_splits)

lemma dispatch_all_events:
  assumes "dispatch_all v T opts js s = (s2, ps)" and "sorted_wrt (<) js"
  shows "\<exists>evs. trace s2 = trace s @ evs
           \<and> (\<forall>r. int (length r + length js) \<le> c \<and> set r \<inter> set js = {} \<longrightarrow> wf c r evs)
           \<and> (\<forall>r. set r \<inter> set js = {} \<longrightarrow> run_after r evs = r @ ps)
           \<and> sorted_wrt (<) (dispatched_of evs) \<and> set (dispatched_of evs) \<subseteq> set js
           \<and> admitted_of evs = [] \<and> (\<forall>i\<in>set ps. suspends T i) \<and> set ps \<subseteq> set js"
  using assms
proof (induction js arbitrary: s s2 ps)
  case Nil
  then show ?case by simp
next
  case (Cons i js)
  obtain s1 susp where p: "processTask v T opts i s = (s1, susp)"
    by (cases "processTask v T opts i s")
  obtain ps' where d: "dispatch_all v T opts js s1 = (s2, ps')"
    and ps: "ps = (if susp then i # ps' else ps')"
    using Cons.prems(1) p by (cases "dispatch_all v T opts js s1") auto
  have sorted: "sorted_wrt (<) js" and less: "\<forall>j\<in>set js. i < j"
    using Cons.prems(2) by simp_all
  from processTask_events[OF p, of c] obtain e1 where e1:
    "trace s1 = trace s @ e1"
    "\<forall>r. int (length r) < c \<longrightarrow> wf c r e1"
    "\<forall>r. i \<notin> set r \<longrightarrow> run_after r e1 = (if susp then r @ [i] else r)"
    "dispatched_of e1 = [] \<or> dispatched_of e1 = [i]"
    "admitted_of e1 = []" "susp \<longrightarrow> suspends T i"
    by blast
  from Cons.IH[OF d sorted] obtain e2 where e2:
    "trace s2 = trace s1 @ e2"
    "\<forall>r. int (length r + length js) \<le> c \<and> set r \<inter> set js = {} \<longrightarrow> wf c r e2"
    "\<forall>r. set r \<inter> set js = {} \<longrightarrow> run_after r e2 = r @ ps'"
    "sorted_wrt (<) (dispatched_of e2)" "set (dispatched_of e2) \<subseteq> set js"
    "admitted_of e2 = []" "\<forall>i\<in>set ps'. suspends T i" "set ps' \<subseteq> set js"
    by blast
  have a: "trace s2 = trace s @ (e1 @ e2)" using e1(1) e2(1) by simp
  have b: "wf c r (e1 @ e2)"
    if r: "int (length r + length (i # js)) \<le> c \<and> set r \<inter> set (i # js) = {}" for r
  proof -
    have i: "i \<notin> set r" and "int (length r) < c" using r by auto
    then have w1: "wf c r e1" and r1: "run_after r e1 = (if susp then r @ [i] else r)"
      using e1(2,3) by auto
    have "int (length (run_after r e1) + length js) \<le> c"
      using r r1 by auto
    moreover have "set (run_after r e1) \<inter> set js = {}"
      using r r1 less by auto
    ultimately have "wf c (run_after r e1) e2" using e2(2) by blast
    with w1 show ?thesis by simp
  qed
  have c': "run_after r (e1 @ e2) = r @ ps" if r: "set r \<inter> set (i # js) = {}" for r
  proof -
    have i: "i \<notin> set r" using r by auto
    then have r1: "run_after r e1 = (if susp then r @ [i] else r)"
      using e1(3) by auto
    have "set (run_after r e1) \<inter> set js = {}"
      using r r1 less by auto
    then have "run_after (run_after r e1) e2 = run_after r e1 @ ps'" using e2(3) by blast
    with r1 ps show ?thesis by simp
  qed
  have lt: "\<forall>x\<in>set (dispatched_of e2). i < x"
    using e2(5) less by blast
  have sub: "set (dispatched_of e2) \<subseteq> set (i # js)"
    using e2(5) by auto
  have d': "sorted_wrt (<) (dispatched_of (e1 @ e2)) \<and> set (dispatched_of (e1 @ e2)) \<subseteq> set (i # js)"
    using e1(4) e2(4) lt sub by auto
  have e': "admitted_of (e1 @ e2) = []" using e1(5) e2(6) by simp
  have f': "(\<forall>j\<in>set ps. suspends T j) \<and> set ps \<subseteq> set (i # js)"
    using ps e1(6) e2(7,8) by auto
  show ?case
    using a b c' d' e' f' by (intro exI[of _ "e1 @ e2"]) blast
qed

lemma settle_all_events:
  assumes "\<forall>i\<in>set ps. suspends T i"
  shows "\<exists>evs. trace (settle_all v T opts pick ps s) = trace s @ evs
           \<and> (\<forall>r. wf c r evs) \<and> (\<forall>r. run_after r evs = filter (\<lambda>x. x \<notin> set ps) r)
           \<and> dispatched_of evs = [] \<and> admitted_of evs = []"
  using assms
proof (induction v T opts pick ps s rule: settle_all.induct)
  case (1 v T opts pick ps s)
  show ?case
  proof (cases "ps = []")
    case True
    then show ?thesis by (simp add: settle_all.simps)
  next
    case False
    define i where "i = ps ! (pick ps mod length ps)"
    have i: "i \<in> set ps" using False by (simp add: i_def)
    have unf: "settle_all v T opts pick ps s
             = settle_all v T opts pick (remove1 i ps) (resume v T opts i s)"
      using False by (subst settle_all.simps) (simp add: Let_def i_def)
    from resume_events[of T i v opts s c] i "1.prems" obtain e1 where e1:
      "trace (resume v T opts i s) = trace s @ e1" "\<forall>r. wf c r e1"
      "\<forall>r. run_after r e1 = removeAll i r" "dispatched_of e1 = []" "admitted_of e1 = []"
      by blast
    have "\<forall>j\<in>set (remove1 i ps). suspends T j"
      using "1.prems" by (auto dest: notin_set_remove1)
    from "1.IH"[OF False i_def this] obtain e2 where e2:
      "trace (settle_all v T opts pick (remove1 i ps) (resume v T opts i s))
         = trace (resume v T opts i s) @ e2"
      "\<forall>r. wf c r e2" "\<forall>r. run_after r e2 = filter (\<lambda>x. x \<notin> set (remove1 i ps)) r"
      "dispatched_of e2 = []" "admitted_of e2 = []"
      by blast
    have "filter (\<lambda>x. x \<notin> set (remove1 i ps)) (removeAll i r) = filter (\<lambda>x. x \<notin> set ps) r" for r
    proof -
      have "i \<noteq> x \<and> x \<notin> set (remove1 i ps) \<longleftrightarrow> x \<notin> set ps" for x
        using i by (metis in_set_remove1 notin_set_remove1)
      then show ?thesis
        unfolding removeAll_filter_not_eq filter_filter by (intro filter_cong refl) blast
    qed
    then have "\<forall>r. run_after r (e1 @ e2) = filter (\<lambda>x. x \<notin> set ps) r"
      using e1(3) e2(3) by simp
    then show ?thesis
      unfolding unf using e1 e2 by (intro exI[of _ "e1 @ e2"]) simp
  qed
qed

lemma after_iteration:
  "after (iteration v T opts pick s) =
     (let s1 = fill (concurrency_of opts) s
      in if inProgress s1 = [] then s1 else wave v T opts pick s1)"
  by (simp add: iteration_wave Let_def)

lemma wave_TI:
  assumes "TI c k (trace s)" and "trace s1 = trace s @ map Admit [k..<a]"
    and "inProgress s1 = [k..<a]" and "k \<le> a" and "int (a - k) \<le> c"
  shows "TI c a (trace (wave v T opts pick s1))"
proof -
  obtain s2 ps where d: "dispatch_all v T opts [k..<a] s1 = (s2, ps)"
    by (cases "dispatch_all v T opts [k..<a] s1")
  have w: "wave v T opts pick s1 = settle_all v T opts pick ps s2"
    using d assms(3) by (simp add: wave_def)
  have "sorted_wrt (<) [k..<a]" by (simp add: sorted_wrt_upt)
  from dispatch_all_events[OF d this, of c] obtain e1 where e1:
    "trace s2 = trace s1 @ e1"
    "\<forall>r. int (length r + length [k..<a]) \<le> c \<and> set r \<inter> set [k..<a] = {} \<longrightarrow> wf c r e1"
    "\<forall>r. set r \<inter> set [k..<a] = {} \<longrightarrow> run_after r e1 = r @ ps"
    "sorted_wrt (<) (dispatched_of e1)" "set (dispatched_of e1) \<subseteq> set [k..<a]"
    "admitted_of e1 = []" "\<forall>i\<in>set ps. suspends T i"
    by blast
  from settle_all_events[OF e1(7), of v opts pick s2 c] obtain e2 where e2:
    "trace (settle_all v T opts pick ps s2) = trace s2 @ e2"
    "\<forall>r. wf c r e2" "\<forall>r. run_after r e2 = filter (\<lambda>x. x \<notin> set ps) r"
    "dispatched_of e2 = []" "admitted_of e2 = []"
    by blast
  have tr: "trace (wave v T opts pick s1) = trace s @ map Admit [k..<a] @ e1 @ e2"
    using w e1(1) e2(1) assms(2) by simp
  have old: "wf c [] (trace s)" "run_after [] (trace s) = []"
    "sorted_wrt (<) (dispatched_of (trace s))" "set (dispatched_of (trace s)) \<subseteq> {..<k}"
    "admitted_of (trace s) = [0..<k]"
    using assms(1) by (simp_all add: TI_def)
  have w1: "wf c [] e1" and r1: "run_after [] e1 = ps"
    using e1(2,3) assms(5) by auto
  have "wf c [] (trace (wave v T opts pick s1))"
    unfolding tr using old(1,2) w1 e2(2) by simp
  moreover have "run_after [] (trace (wave v T opts pick s1)) = []"
    unfolding tr using old(2) r1 e2(3) by simp
  moreover have "sorted_wrt (<) (dispatched_of (trace (wave v T opts pick s1)))"
  proof -
    have "\<forall>x\<in>set (dispatched_of (trace s)). \<forall>y\<in>set (dispatched_of e1). x < y"
      using old(4) e1(5) by fastforce
    then show ?thesis
      unfolding tr using old(3) e1(4) e2(4) by (simp add: sorted_wrt_append)
  qed
  moreover have "set (dispatched_of (trace (wave v T opts pick s1))) \<subseteq> {..<a}"
    unfolding tr using old(4) e1(5) e2(4) assms(4) by auto
  moreover have "admitted_of (trace (wave v T opts pick s1)) = [0..<a]"
  proof -
    have "[0..<k + (a - k)] = [0..<k] @ [k..<k + (a - k)]"
      by (rule upt_add_eq_append) simp
    then have "[0..<k] @ [k..<a] = [0..<a]"
      using assms(4) by simp
    then show ?thesis
      unfolding tr using old(5) e1(6) e2(5) by simp
  qed
  ultimately show ?thesis by (simp add: TI_def)
qed

lemma iteration_TI:
  assumes "LI T opts k s" and "TI (concurrency_of opts) k (trace s)"
  shows "TI (concurrency_of opts) (k + min (nat (concurrency_of opts)) (length T - k))
           (trace (after (iteration v T opts pick s)))"
proof -
  let ?c = "concurrency_of opts"
  let ?a = "k + min (nat ?c) (length T - k)"
  let ?s1 = "fill ?c s"
  have W: "Wcore T opts k {..<k} s"
    using assms(1) by (simp add: LI_def)
  have f: "inProgress ?s1 = [k..<?a]" "trace ?s1 = trace s @ map Admit [k..<?a]"
    using Wcore_fill[OF W, of ?c] by simp_all
  show ?thesis
  proof (cases "inProgress ?s1 = []")
    case True
    then have "[k..<?a] = []" using f(1) by simp
    then have "?a \<le> k" by auto
    then have a: "?a = k" by arith
    have "after (iteration v T opts pick s) = ?s1"
      using True by (simp add: after_iteration)
    then show ?thesis
      using assms(2) f(2) a by simp
  next
    case False
    then have "k < ?a" using f(1) by simp
    then have "int (?a - k) \<le> ?c" by (auto simp: min_def split: if_splits)
    moreover have "after (iteration v T opts pick s) = wave v T opts pick ?s1"
      using False by (simp add: after_iteration)
    ultimately show ?thesis
      using wave_TI[OF assms(2) f(2) f(1), of v T opts pick] by simp
  qed
qed

lemma asyncBatch_TI:
  assumes "asyncBatch v T opts pick = Some (out, s)"
  shows "\<exists>k. TI (concurrency_of opts) k (trace s)"
proof -
  let ?c = "concurrency_of opts"
  let ?I = "\<lambda>s. \<exists>k. LI T opts k s \<and> TI ?c k (trace s)"
  have "\<exists>s0. ?I s0 \<and>
           ((queue s0 = [] \<or> failed s0) \<and> out = finish s0 \<and> s = s0
            \<or> queue s0 \<noteq> [] \<and> \<not> failed s0
               \<and> (\<exists>e. iteration v T opts pick s0 = Inl (e, s) \<and> out = TaskError e))"
  proof (rule run_loop_exit[where I = ?I])
    show "run_loop v T opts pick (init T) = Some (out, s)"
      using assms by (simp add: asyncBatch_def)
    have "TI ?c 0 (trace (init T))" by (simp add: TI_def init_def)
    then show "?I (init T)" using LI_init by blast
    show "?I s1" if "?I s" "iteration v T opts pick s = Inr s1" for s s1
    proof -
      from that(1) obtain k where k: "LI T opts k s" "TI ?c k (trace s)" by blast
      from iteration_LI[OF k(1) that(2)] iteration_TI[OF k, of v pick] that(2)
      show ?thesis by auto
    qed
  qed
  then obtain s0 k where k: "LI T opts k s0" "TI ?c k (trace s0)"
    and c: "(queue s0 = [] \<or> failed s0) \<and> out = finish s0 \<and> s = s0
            \<or> queue s0 \<noteq> [] \<and> \<not> failed s0
               \<and> (\<exists>e. iteration v T opts pick s0 = Inl (e, s) \<and> out = TaskError e)"
    by blast
  from c show ?thesis
  proof
    assume "(queue s0 = [] \<or> failed s0) \<and> out = finish s0 \<and> s = s0"
    with k(2) show ?thesis by blast
  next
    assume "queue s0 \<noteq> [] \<and> \<not> failed s0
               \<and> (\<exists>e. iteration v T opts pick s0 = Inl (e, s) \<and> out = TaskError e)"
    then obtain e where "iteration v T opts pick s0 = Inl (e, s)" by blast
    with iteration_TI[OF k, of v pick] show ?thesis by auto
  qed
qed

text \<open>
  C8. In every run that ends, at every instant at most \<open>concurrency\<close> tasks are
  executing (none at all when the concurrency is below one); tasks are admitted as
  0, 1, 2, ... and dispatched in ascending index order; a task is admitted only when no
  task is executing, so each wave has settled before the next is admitted; and with
  concurrency 1 a task is dispatched only when no task is executing: the tasks run
  one after the other, in input order.
\<close>

theorem waves_bounded_and_in_order:
  assumes "asyncBatch v T opts pick = Some (out, s)"
  shows "(\<forall>k. int (length (executing (take k (trace s)))) \<le> max 0 (concurrency_of opts))
       \<and> sorted_wrt (<) (dispatched_of (trace s))
       \<and> admitted_of (trace s) = [0..<length (admitted_of (trace s))]
       \<and> (\<forall>k i. k < length (trace s) \<and> trace s ! k = Admit i
              \<longrightarrow> executing (take k (trace s)) = [])
       \<and> (concurrency_of opts = 1 \<longrightarrow>
            (\<forall>k i. k < length (trace s) \<and> trace s ! k = Dispatch i
               \<longrightarrow> executing (take k (trace s)) = []))
       \<and> executing (trace s) = []"
proof -
  from asyncBatch_TI[OF assms] obtain k where "TI (concurrency_of opts) k (trace s)" ..
  then have wf: "wf (concurrency_of opts) [] (trace s)"
    and idle: "run_after [] (trace s) = []"
    and srt: "sorted_wrt (<) (dispatched_of (trace s))"
    and adm: "admitted_of (trace s) = [0..<k]"
    by (simp_all add: TI_def)
  have "\<forall>k. int (length (executing (take k (trace s)))) \<le> max 0 (concurrency_of opts)"
    using wf_executing_bound[OF wf] by blast
  moreover have "admitted_of (trace s) = [0..<length (admitted_of (trace s))]"
    using adm by simp
  moreover have "\<forall>k i. k < length (trace s) \<and> trace s ! k = Admit i
              \<longrightarrow> executing (take k (trace s)) = []"
    using wf_admit_idle[OF wf] by blast
  moreover have "concurrency_of opts = 1 \<longrightarrow>
            (\<forall>k i. k < length (trace s) \<and> trace s ! k = Dispatch i
               \<longrightarrow> executing (take k (trace s)) = [])"
    using wf_dispatch_room[OF wf] by fastforce
  ultimately show ?thesis
    using srt idle by (simp add: executing_def)
qed

theorem waves_bounded_and_in_order_witness:
  "\<exists>out s. asyncBatch TS
       [Some (Resolves (Num 1)), Some (Rejects (Str ''X'')), Some (Resolves (Num 3))]
       \<lparr>concurrency = Some 2, failFast = None, onProgress = None\<rparr> lifo = Some (out, s)
     \<and> int (length (executing (take 4 (trace s)))) \<le> 2
     \<and> sorted_wrt (<) (dispatched_of (trace s))
     \<and> executing (trace s) = []"
proof -
  let ?T = "[Some (Resolves (Num 1)), Some (Rejects (Str ''X'')), Some (Resolves (Num 3))]"
  let ?o = "\<lparr>concurrency = Some 2, failFast = None, onProgress = None\<rparr>"
  have c: "concurrency_of ?o = 2" by (simp add: concurrency_of_def)
  then have "1 \<le> concurrency_of ?o" by simp
  from asyncBatch_terminates[OF this, of TS ?T lifo]
  obtain out s where run: "asyncBatch TS ?T ?o lifo = Some (out, s)" by auto
  from waves_bounded_and_in_order[OF run] c
  have "int (length (executing (take 4 (trace s)))) \<le> 2"
    and "sorted_wrt (<) (dispatched_of (trace s))" and "executing (trace s) = []"
    by auto
  with run show ?thesis by blast
qed

section \<open>After the abort\<close>

lemma follows_refl: "follows s s"
  by (simp add: follows_def quiet_after_abort_def)

lemma dropWhile_no_abort:
  "\<not> list_ex is_Abort xs \<Longrightarrow> dropWhile (\<lambda>e. \<not> is_Abort e) (xs @ ys) = dropWhile (\<lambda>e. \<not> is_Abort e) ys"
  by (induction xs) auto

lemma dropWhile_abort:
  "list_ex is_Abort xs \<Longrightarrow>
     dropWhile (\<lambda>e. \<not> is_Abort e) (xs @ ys) = dropWhile (\<lambda>e. \<not> is_Abort e) xs @ ys"
  by (induction xs) auto

lemma follows_trans:
  assumes "follows s s1" and "follows s1 s2"
  shows "follows s s2"
proof -
  from assms(1) obtain e1 where e1: "trace s1 = trace s @ e1"
    "if failed s then failed s1 \<and> list_all quiet e1
     else quiet_after_abort e1 \<and> failed s1 = list_ex is_Abort e1"
    by (auto simp: follows_def)
  from assms(2) obtain e2 where e2: "trace s2 = trace s1 @ e2"
    "if failed s1 then failed s2 \<and> list_all quiet e2
     else quiet_after_abort e2 \<and> failed s2 = list_ex is_Abort e2"
    by (auto simp: follows_def)
  have tr: "trace s2 = trace s @ (e1 @ e2)" using e1(1) e2(1) by simp
  have "if failed s then failed s2 \<and> list_all quiet (e1 @ e2)
        else quiet_after_abort (e1 @ e2) \<and> failed s2 = list_ex is_Abort (e1 @ e2)"
  proof (cases "failed s")
    case True
    with e1(2) e2(2) show ?thesis by simp
  next
    case False
    show ?thesis
    proof (cases "failed s1")
      case True
      with False e1(2) e2(2) show ?thesis
        by (simp add: quiet_after_abort_def dropWhile_abort)
    next
      case nf: False
      with False e1(2) e2(2) show ?thesis
        by (simp add: quiet_after_abort_def dropWhile_no_abort)
    qed
  qed
  with tr show ?thesis unfolding follows_def by blast
qed

lemma follows_resume: "follows s (resume v T opts i s)"
  by (cases "failed s")
     (auto simp: follows_def quiet_after_abort_def resume_def finally_block_eq catch_block_def
                 progress_event_def
           split: option.splits task.splits)

lemma follows_processTask: "follows s (fst (processTask v T opts i s))"
  by (cases "failed s")
     (auto simp: follows_def quiet_after_abort_def processTask_def finally_block_eq
                 catch_block_def progress_event_def Let_def
           split: option.splits task.splits)

lemma follows_dispatch_all: "follows s (fst (dispatch_all v T opts js s))"
proof (induction js arbitrary: s)
  case Nil
  then show ?case by (simp add: follows_refl)
next
  case (Cons i js)
  show ?case
    unfolding fst_dispatch_all_Cons
    using follows_processTask Cons.IH by (rule follows_trans)
qed

lemma follows_settle_all: "follows s (settle_all v T opts pick ps s)"
proof (induction v T opts pick ps s rule: settle_all.induct)
  case (1 v T opts pick ps s)
  show ?case
  proof (cases "ps = []")
    case True
    then show ?thesis by (simp add: settle_all.simps follows_refl)
  next
    case False
    define i where "i = ps ! (pick ps mod length ps)"
    have unf: "settle_all v T opts pick ps s
             = settle_all v T opts pick (remove1 i ps) (resume v T opts i s)"
      using False by (subst settle_all.simps) (simp add: Let_def i_def)
    show ?thesis
      unfolding unf using follows_resume "1.IH"[OF False i_def] by (rule follows_trans)
  qed
qed

lemma follows_fill: "follows s (fill c s)"
proof (induction c s rule: fill.induct)
  case (1 c s)
  show ?case
  proof (cases "int (length (inProgress s)) < c \<and> queue s \<noteq> [] \<and> \<not> failed s")
    case False
    then have "fill c s = s" by (subst fill.simps) auto
    then show ?thesis by (simp add: follows_refl)
  next
    case True
    let ?s' = "s\<lparr>queue := tl (queue s),
                      inProgress := set_add (hd (queue s)) (inProgress s),
                      trace := trace s @ [Admit (hd (queue s))]\<rparr>"
    have unf: "fill c s = fill c ?s'"
      using True by (subst fill.simps) simp
    have "follows s ?s'"
      using True by (simp add: follows_def quiet_after_abort_def)
    moreover have "follows ?s' (fill c ?s')"
      using True by (intro "1.IH") simp
    ultimately show ?thesis
      unfolding unf by (rule follows_trans)
  qed
qed

lemma follows_wave: "follows s (wave v T opts pick s)"
proof -
  obtain s2 ps where d: "dispatch_all v T opts (inProgress s) s = (s2, ps)"
    by (cases "dispatch_all v T opts (inProgress s) s")
  have "follows s s2"
    using follows_dispatch_all[of s v T opts "inProgress s"] d by simp
  moreover have "follows s2 (settle_all v T opts pick ps s2)"
    by (rule follows_settle_all)
  ultimately show ?thesis
    using d by (simp add: wave_def follows_trans)
qed

lemma follows_after_iteration: "follows s (after (iteration v T opts pick s))"
proof -
  let ?s1 = "fill (concurrency_of opts) s"
  have "follows s ?s1" by (rule follows_fill)
  moreover have "follows ?s1 (wave v T opts pick ?s1)" by (rule follows_wave)
  ultimately show ?thesis
    by (auto simp: after_iteration Let_def intro: follows_trans)
qed

lemma asyncBatch_follows:
  assumes "asyncBatch v T opts pick = Some (out, s)"
  shows "follows (init T) s"
proof -
  let ?I = "follows (init T)"
  have "\<exists>s0. ?I s0 \<and>
           ((queue s0 = [] \<or> failed s0) \<and> out = finish s0 \<and> s = s0
            \<or> queue s0 \<noteq> [] \<and> \<not> failed s0
               \<and> (\<exists>e. iteration v T opts pick s0 = Inl (e, s) \<and> out = TaskError e))"
  proof (rule run_loop_exit[where I = ?I])
    show "run_loop v T opts pick (init T) = Some (out, s)"
      using assms by (simp add: asyncBatch_def)
    show "?I (init T)" by (rule follows_refl)
    show "?I s1" if "?I s" "iteration v T opts pick s = Inr s1" for s s1
      using follows_trans[OF that(1) follows_after_iteration[of s v T opts pick]] that(2)
      by simp
  qed
  then obtain s0 where s0: "follows (init T) s0"
    and c: "(queue s0 = [] \<or> failed s0) \<and> out = finish s0 \<and> s = s0
            \<or> queue s0 \<noteq> [] \<and> \<not> failed s0
               \<and> (\<exists>e. iteration v T opts pick s0 = Inl (e, s) \<and> out = TaskError e)"
    by blast
  from c show ?thesis
  proof
    assume "(queue s0 = [] \<or> failed s0) \<and> out = finish s0 \<and> s = s0"
    with s0 show ?thesis by simp
  next
    assume "queue s0 \<noteq> [] \<and> \<not> failed s0
               \<and> (\<exists>e. iteration v T opts pick s0 = Inl (e, s) \<and> out = TaskError e)"
    then obtain e where "iteration v T opts pick s0 = Inl (e, s)" by blast
    with follows_trans[OF s0 follows_after_iteration[of s0 v T opts pick]]
    show ?thesis by simp
  qed
qed

lemma resume_aborted:
  assumes "failFast_of opts" and "failed s"
  shows "results (resume v T opts i s) = results s
       \<and> completed (resume v T opts i s) = completed s
       \<and> progress_calls (trace (resume v T opts i s)) = progress_calls (trace s)
       \<and> dispatched_of (trace (resume v T opts i s)) = dispatched_of (trace s)
       \<and> failed (resume v T opts i s)"
  using assms
  by (simp add: resume_def finally_block_eq catch_block_def split: option.splits task.splits)

lemma settle_all_aborted:
  assumes "failFast_of opts" and "failed s"
  shows "results (settle_all v T opts pick ps s) = results s
       \<and> completed (settle_all v T opts pick ps s) = completed s
       \<and> progress_calls (trace (settle_all v T opts pick ps s)) = progress_calls (trace s)
       \<and> dispatched_of (trace (settle_all v T opts pick ps s)) = dispatched_of (trace s)
       \<and> failed (settle_all v T opts pick ps s)"
  using assms
proof (induction v T opts pick ps s rule: settle_all.induct)
  case (1 v T opts pick ps s)
  show ?case
  proof (cases "ps = []")
    case True
    with "1.prems" show ?thesis by (simp add: settle_all.simps)
  next
    case False
    define i where "i = ps ! (pick ps mod length ps)"
    have unf: "settle_all v T opts pick ps s
             = settle_all v T opts pick (remove1 i ps) (resume v T opts i s)"
      using False by (subst settle_all.simps) (simp add: Let_def i_def)
    note r = resume_aborted[OF "1.prems", of v T i]
    from r have "failed (resume v T opts i s)" by simp
    from "1.IH"[OF False i_def "1.prems"(1) this] r show ?thesis
      unfolding unf by simp
  qed
qed

lemma fill_aborted: "failed s \<Longrightarrow> fill c s = s"
  by (subst fill.simps) simp

text \<open>
  C7. In fail-fast mode, in any state in which the abort flag \<open>failed\<close> is set: the fill
  loop admits nothing and dispatching any tasks leaves the state as it is, so no further
  task is invoked; and when the suspended tasks \<open>ps\<close> of the wave settle afterwards, in
  any order, \<open>results\<close> and \<open>completed\<close> stay as they were, \<open>onProgress\<close> is not
  called, nothing is dispatched, and the flag stays set. In every run that ends, from the
  first \<open>Abort\<close> event on the trace holds only \<open>Abort\<close> and \<open>Settled\<close> events.
\<close>

theorem abort_discards_later_outcomes:
  assumes "failFast_of opts" and "failed s"
  shows "fill c s = s
       \<and> dispatch_all v T opts js s = (s, [])
       \<and> results (settle_all v T opts pick ps s) = results s
       \<and> completed (settle_all v T opts pick ps s) = completed s
       \<and> progress_calls (trace (settle_all v T opts pick ps s)) = progress_calls (trace s)
       \<and> dispatched_of (trace (settle_all v T opts pick ps s)) = dispatched_of (trace s)
       \<and> failed (settle_all v T opts pick ps s)
       \<and> (\<forall>out s'. asyncBatch v T opts pick = Some (out, s')
             \<longrightarrow> quiet_after_abort (trace s'))"
proof -
  have "\<forall>out s'. asyncBatch v T opts pick = Some (out, s') \<longrightarrow> quiet_after_abort (trace s')"
  proof (intro allI impI)
    fix out s'
    assume "asyncBatch v T opts pick = Some (out, s')"
    from asyncBatch_follows[OF this] show "quiet_after_abort (trace s')"
      by (simp add: follows_def init_def)
  qed
  with fill_aborted[OF assms(2)] dispatch_all_failed[OF assms(2)] settle_all_aborted[OF assms]
  show ?thesis by simp
qed

lemma aborted_example_eq:
  "aborted_example =
     \<lparr> results = [None, None, None], completed = 0, failed = True,
       firstError = Some (ErrorObj ''X''), queue = [], inProgress = [0, 2],
       processing = [0, 1],
       trace = [Admit 0, Admit 1, Admit 2, Dispatch 0, Dispatch 1, Abort 1, Settled 1] \<rparr>"
  unfolding aborted_example_def by code_simp

theorem abort_discards_later_outcomes_witness:
  "failFast_of \<lparr>concurrency = None, failFast = Some True, onProgress = Some Recorder\<rparr>
   \<and> failed aborted_example
   \<and> results (settle_all TS
                [Some (Resolves (Num 1)), Some (Throws (Str ''X'')), Some (Resolves (Num 3))]
                \<lparr>concurrency = None, failFast = Some True, onProgress = Some Recorder\<rparr>
                fifo [0] aborted_example) = [None, None, None]
   \<and> completed (settle_all TS
                [Some (Resolves (Num 1)), Some (Throws (Str ''X'')), Some (Resolves (Num 3))]
                \<lparr>concurrency = None, failFast = Some True, onProgress = Some Recorder\<rparr>
                fifo [0] aborted_example) = 0"
proof -
  let ?T = "[Some (Resolves (Num 1)), Some (Throws (Str ''X'')), Some (Resolves (Num 3))]"
  let ?o = "\<lparr>concurrency = None, failFast = Some True, onProgress = Some Recorder\<rparr>"
  have h: "failFast_of ?o" "failed aborted_example"
    by (simp_all add: failFast_of_def aborted_example_eq)
  from abort_discards_later_outcomes[OF h, of 5 TS ?T "[]" fifo "[0]"]
  have "results (settle_all TS ?T ?o fifo [0] aborted_example) = results aborted_example"
    and "completed (settle_all TS ?T ?o fifo [0] aborted_example) = completed aborted_example"
    by blast+
  then have "results (settle_all TS ?T ?o fifo [0] aborted_example) = [None, None, None]"
    and "completed (settle_all TS ?T ?o fifo [0] aborted_example) = 0"
    by (simp_all add: aborted_example_eq)
  with h show ?thesis by blast
qed

end
